theory Spec2Isabelle
  imports Complex_Main "HOL-Library.AList" "HOL-Library.Multiset"
begin

section \<open>The Federator (fltk/core/federator.py)\<close>

text \<open>
  The coordinator of the federated learning process. Its remote learners, the aggregation
  function, the two central evaluations, the wall clock and NumPy's global random
  generator are the environment of the model; every function below takes what it reads of
  them as an argument. Python exceptions are values of \<open>error\<close>; the polling
  loop of a round has no result (\<open>None\<close>) when it never ends, and the round then
  \<open>Stalls\<close>.
\<close>

datatype error =
    ConfigurationError
  | KeyError
  | IndexError
  | ZeroDivisionError
  | TypeError
  | AggregationError

type_synonym weights = "real list"

type_synonym confusion_matrix = "nat list list"

text \<open>
  \<open>ClientRecord(com_round_id, train_duration, test_duration, round_duration, num_epochs,
  0, accuracy, train_loss, test_loss, confusion_matrix=c_mat)\<close>: the fields in the
  order of the constructor call in \<open>training_cb\<close>.
\<close>

record ClientRecord =
  cr_round_id :: nat
  cr_train_duration :: real
  cr_test_duration :: real
  cr_round_duration :: real
  cr_num_epochs :: nat
  cr_sixth :: nat
  cr_accuracy :: real
  cr_train_loss :: real
  cr_test_loss :: real
  cr_confusion_matrix :: confusion_matrix

text \<open>
  \<open>FederatorRecord(len(selected_clients), com_round_id, duration, test_loss, test_accuracy,
  mal_loss, mal_accuracy, mal_confidence, confusion_matrix=conf_mat)\<close>: the nine values
  the constructor call in \<open>exec_round\<close> passes, in that order.
\<close>

record FederatorRecord =
  num_selected_clients :: nat
  round_id :: nat
  round_duration :: real
  test_loss :: real
  test_accuracy :: real
  mal_loss :: real
  mal_accuracy :: real
  mal_confidence :: real
  confusion_mat :: confusion_matrix

text \<open>
  The dataclass \<open>LocalClient\<close>. Its \<open>exp_data\<close> is a \<open>DataContainer\<close>, of
  which the Federator uses the list \<open>records\<close>, \<open>append\<close> and \<open>save\<close>;
  the container is the list of its records here.
\<close>

record LocalClient =
  name :: string
  ref :: string
  data_size :: int
  exp_data :: "ClientRecord list"

text \<open>The fields of \<open>Config\<close> that \<open>run\<close> and \<open>exec_round\<close> read.\<close>

record Config =
  rounds :: nat
  epochs :: nat
  clients_per_round :: nat
  regular_schedule :: bool
  config_defense_controller :: bool
  mal_boost :: int
  aggregation :: string
  tm_beta :: real
  use_wandb :: bool

text \<open>
  What \<open>fut.wait()\<close> returns in \<open>training_cb\<close>: train_loss, weights, accuracy,
  test_loss, round_duration, train_duration, test_duration, c_mat.
\<close>

record TrainResult =
  tr_train_loss :: real
  tr_weights :: weights
  tr_accuracy :: real
  tr_test_loss :: real
  tr_round_duration :: real
  tr_train_duration :: real
  tr_test_duration :: real
  tr_c_mat :: confusion_matrix

text \<open>
  A remote learner in one round, as the Federator sees it through \<open>self.message\<close>:
  the replies to \<open>get_client_status\<close>, \<open>get_client_datasize\<close>,
  \<open>get_client_hessian\<close> (a list of \<open>ChangedPercent\<close>, \<open>ChangedMagnitude\<close>
  pairs) and \<open>get_client_regular_loss\<close>, the result of its training future, and the
  number of the poll from which that future reports \<open>done()\<close> (\<open>None\<close>: never).
\<close>

record Learner =
  status :: bool
  datasize :: int
  hessian :: "(real \<times> real) list"
  regular_loss :: real
  train_result :: TrainResult
  done_tick :: "nat option"

text \<open>
  The environment: NumPy's generator (\<open>np_seed\<close> gives the state that
  \<open>np.random.seed\<close> sets, \<open>np_next\<close> draws a number and advances the state),
  the learners by round and reference, the aggregation function chosen by
  \<open>get_aggregation\<close> (the optional argument is \<open>tm_beta\<close>), the evaluations
  \<open>test\<close> and \<open>mal_test\<close> of a network, and \<open>time.time()\<close> at the start and
  at the end of a round.
\<close>

record Env =
  np_seed :: "nat \<Rightarrow> nat"
  np_next :: "nat \<Rightarrow> nat \<times> nat"
  learner :: "nat \<Rightarrow> string \<Rightarrow> Learner"
  aggregation_method ::
    "(string \<times> weights) list \<Rightarrow> (string \<times> int) list \<Rightarrow> real option \<Rightarrow> error + weights"
  test :: "weights \<Rightarrow> real \<times> real \<times> confusion_matrix"
  mal_test :: "weights \<Rightarrow> real \<times> real \<times> real"
  start_time :: "nat \<Rightarrow> real"
  end_time :: "nat \<Rightarrow> real"

text \<open>
  The state of the Federator: the registry \<open>clients\<close>, the records of its own
  \<open>exp_data\<close>, the parameters of its network, the countdown of the defense controller,
  and the state of NumPy's global generator.
\<close>

record Federator =
  clients :: "LocalClient list"
  records :: "FederatorRecord list"
  net :: weights
  defense_controller_counter :: int
  np_random :: nat

text \<open>
  What the Federator does to the outside, in the order it does it: the commands it sends
  to learners (\<open>set_client_regular_schedule\<close>, \<open>update_nn_parameters\<close>, the
  asynchronous \<open>exec_round\<close> with its epochs and defense flag), each
  \<open>time.sleep\<close> (in milliseconds), the call of the aggregation method with the two
  tables it reads and the number of the poll that ended the wait, each \<open>wandb.log\<close>,
  each call of \<open>exec_round\<close> from \<open>run\<close>, and each \<open>save()\<close> of a ledger.
  Queries of a learner (status, data size, Hessian, regular loss) are reads of the
  environment and leave no event.
\<close>

datatype event =
    SetRegularSchedule string nat
  | UpdateNNParameters string weights
  | ExecRound string nat bool
  | Sleep nat
  | Aggregate nat "(string \<times> weights) list" "(string \<times> int) list" "real option"
  | WandbLog "(string \<times> real) list" nat
  | CallExecRound nat
  | Save string

text \<open>
  How a call ends: it returns, it raises, or it never leaves the wait for the training
  futures. Each carries the state of the Federator at that point.
\<close>

datatype outcome = Returns Federator | Raises error Federator | Stalls Federator

subsection \<open>Client selection\<close>

text \<open>
  Modelled from the spec: \<open>random_selection\<close> (fltk/strategy) is not among the sources.
  The spec has it return exactly \<open>k\<close> distinct learners, sampled without replacement,
  and fail with a configuration error when \<open>k\<close> exceeds the number of registered
  learners. \<open>sample\<close> draws \<open>k\<close> times from the generator and takes the drawn
  element out of the pool; the learners are returned as their positions in the registry,
  since the selected objects are the registry's own.
\<close>

fun sample :: "(nat \<Rightarrow> nat \<times> nat) \<Rightarrow> nat \<Rightarrow> 'a list \<Rightarrow> nat \<Rightarrow> 'a list \<times> nat" where
  "sample nxt g pool 0 = ([], g)"
| "sample nxt g pool (Suc k) =
     (if pool = [] then ([], g)
      else case nxt g of (x, g') \<Rightarrow>
        (let i = x mod length pool
         in case sample nxt g' (take i pool @ drop (Suc i) pool) k of
              (rest, g'') \<Rightarrow> (pool ! i # rest, g'')))"

definition random_selection ::
  "(nat \<Rightarrow> nat \<times> nat) \<Rightarrow> nat \<Rightarrow> 'a list \<Rightarrow> nat \<Rightarrow> error + (nat list \<times> nat)" where
  "random_selection nxt g cls k =
     (if length cls < k then Inl ConfigurationError
      else Inr (sample nxt g [0..<length cls] k))"

text \<open>
  Lines 350-351 of \<open>exec_round\<close>: \<open>np.random.seed(com_round_id)\<close> overwrites the
  global generator, then \<open>random_selection(self.clients, self.config.clients_per_round)\<close>
  draws from it. The result is the selected positions and the Federator with the
  generator advanced.
\<close>

definition select_clients :: "Config \<Rightarrow> Env \<Rightarrow> Federator \<Rightarrow> nat \<Rightarrow> error + (nat list \<times> Federator)" where
  "select_clients cfg env s com_round_id =
     (let s1 = s\<lparr>np_random := np_seed env com_round_id\<rparr>
      in case random_selection (np_next env) (np_random s1) (clients s1) (clients_per_round cfg) of
           Inl e \<Rightarrow> Inl e
         | Inr (sel, g) \<Rightarrow> Inr (sel, s1\<lparr>np_random := g\<rparr>))"

subsection \<open>The pieces of a round\<close>

text \<open>\<open>set_regular_schedule\<close>: one message to every registered client.\<close>

definition set_regular_schedule :: "Federator \<Rightarrow> nat \<Rightarrow> event list" where
  "set_regular_schedule s communication_round =
     map (\<lambda>c. SetRegularSchedule (ref c) communication_round) (clients s)"

text \<open>
  The defense controller at dispatch (lines 389-395): the flag sent with the training
  request and the countdown after it.
\<close>

definition start_defense :: "Config \<Rightarrow> int \<Rightarrow> bool \<times> int" where
  "start_defense cfg counter =
     (if config_defense_controller cfg
      then (if counter > 0 then (True, counter - 1) else (False, counter))
      else (True, counter))"

text \<open>
  \<open>defense_controller\<close> (lines 490-494), called after the round's record is appended.
\<close>

definition defense_controller :: "Federator \<Rightarrow> Federator" where
  "defense_controller s =
     (if length (records s) > 1
      then (if test_accuracy (records s ! (length (records s) - 2))
                 - test_accuracy (records s ! (length (records s) - 1)) > 0.5
            then s\<lparr>defense_controller_counter :=
                     (if defense_controller_counter s = 0 then 5 else defense_controller_counter s)\<rparr>
            else s)
      else s)"

text \<open>
  \<open>all_futures_done\<close> and the loop around it (lines 403-409): a future is done at poll
  \<open>t\<close> when its completion poll is at most \<open>t\<close>; the loop sleeps 100 ms after every
  poll that finds a future not done, and returns the number of the poll that found all
  done. With a future that never completes it does not return.
\<close>

definition future_done :: "nat \<Rightarrow> nat option \<Rightarrow> bool" where
  "future_done t f = (case f of None \<Rightarrow> False | Some d \<Rightarrow> d \<le> t)"

definition all_futures_done :: "nat \<Rightarrow> nat option list \<Rightarrow> bool" where
  "all_futures_done t futures = list_all (future_done t) futures"

partial_function (option) wait_futures :: "nat \<Rightarrow> nat option list \<Rightarrow> nat option" where
  "wait_futures t futures =
     (if all_futures_done t futures then Some t else wait_futures (Suc t) futures)"

declare wait_futures.simps [code]

text \<open>
  \<open>training_cb\<close> (lines 377-386) for the client at position \<open>i\<close> of the registry:
  it stores the trained weights and the learner's live data size under the client's name
  and appends a record to the client's own ledger.
\<close>

definition training_cb ::
  "Config \<Rightarrow> Env \<Rightarrow> nat \<Rightarrow> nat \<Rightarrow>
   (string \<times> weights) list \<times> (string \<times> int) list \<times> LocalClient list \<Rightarrow>
   (string \<times> weights) list \<times> (string \<times> int) list \<times> LocalClient list" where
  "training_cb cfg env com_round_id i tabs =
     (case tabs of (client_weights, client_sizes, cls) \<Rightarrow>
        (let client_ref = cls ! i;
             l = learner env com_round_id (ref client_ref);
             r = train_result l;
             c_record = \<lparr>cr_round_id = com_round_id, cr_train_duration = tr_train_duration r,
                         cr_test_duration = tr_test_duration r,
                         cr_round_duration = tr_round_duration r,
                         cr_num_epochs = epochs cfg, cr_sixth = 0,
                         cr_accuracy = tr_accuracy r, cr_train_loss = tr_train_loss r,
                         cr_test_loss = tr_test_loss r, cr_confusion_matrix = tr_c_mat r\<rparr>
         in (AList.update (name client_ref) (tr_weights r) client_weights,
             AList.update (name client_ref) (datasize l) client_sizes,
             cls[i := client_ref\<lparr>exp_data := exp_data client_ref @ [c_record]\<rparr>])))"

text \<open>
  The callbacks run as the futures complete: in the order of the completion polls, and in
  the order of dispatch among futures of one poll.
\<close>

definition completion_order :: "Env \<Rightarrow> nat \<Rightarrow> LocalClient list \<Rightarrow> nat list \<Rightarrow> nat list" where
  "completion_order env com_round_id cls sel =
     sort_key (\<lambda>i. case done_tick (learner env com_round_id (ref (cls ! i))) of
                      None \<Rightarrow> 0 | Some d \<Rightarrow> d) sel"

definition collect ::
  "Config \<Rightarrow> Env \<Rightarrow> nat \<Rightarrow> LocalClient list \<Rightarrow> nat list \<Rightarrow>
   (string \<times> weights) list \<times> (string \<times> int) list \<times> LocalClient list" where
  "collect cfg env com_round_id cls sel =
     foldl (\<lambda>tabs i. training_cb cfg env com_round_id i tabs) ([], [], cls)
       (completion_order env com_round_id cls sel)"

text \<open>
  The substitution loop (lines 431-437): every benign client's entries are overwritten
  with those of the flagged client \<open>m\<close> and the budget goes down by one; the loop stops
  as soon as the budget is 1.
\<close>

fun substitute ::
  "(LocalClient \<Rightarrow> bool) \<Rightarrow> string \<Rightarrow> LocalClient list \<Rightarrow> int \<Rightarrow>
   (string \<times> weights) list \<Rightarrow> (string \<times> int) list \<Rightarrow>
   error + ((string \<times> weights) list \<times> (string \<times> int) list)" where
  "substitute is_mal m [] boost client_weights client_sizes = Inr (client_weights, client_sizes)"
| "substitute is_mal m (client # rest) boost client_weights client_sizes =
     (if \<not> is_mal client
      then (case map_of client_weights m of
              None \<Rightarrow> Inl KeyError
            | Some w \<Rightarrow>
               (case map_of client_sizes m of
                  None \<Rightarrow> Inl KeyError
                | Some z \<Rightarrow>
                   (let client_weights' = AList.update (name client) w client_weights;
                        client_sizes' = AList.update (name client) z client_sizes
                    in if boost - 1 = 1 then Inr (client_weights', client_sizes')
                       else substitute is_mal m rest (boost - 1) client_weights' client_sizes')))
      else if boost = 1 then Inr (client_weights, client_sizes)
      else substitute is_mal m rest boost client_weights client_sizes)"

text \<open>
  The adversarial-weighting pass (lines 413 and 426-437): \<open>mal_name\<close> lists the flagged
  selected clients, and \<open>mal_name[-1]\<close> is the one whose entries are copied.
\<close>

definition boost_pass ::
  "Config \<Rightarrow> (LocalClient \<Rightarrow> bool) \<Rightarrow> LocalClient list \<Rightarrow>
   (string \<times> weights) list \<Rightarrow> (string \<times> int) list \<Rightarrow>
   error + ((string \<times> weights) list \<times> (string \<times> int) list)" where
  "boost_pass cfg is_mal selected_clients client_weights client_sizes =
     (let mal_this_round = length (filter is_mal selected_clients);
          mal_names = map name (filter is_mal selected_clients)
      in if mal_boost cfg > 1 \<and> mal_this_round > 0
         then (if mal_names = [] then Inl IndexError
               else substitute is_mal (last mal_names) selected_clients (mal_boost cfg)
                      client_weights client_sizes)
         else Inr (client_weights, client_sizes))"

text \<open>
  \<open>client_aggregate_hessian\<close> (lines 213-228): the entries of the benign selected
  clients' Hessian lists are collected and both sums are divided by the number of entries.
\<close>

definition client_aggregate_hessian ::
  "Env \<Rightarrow> nat \<Rightarrow> LocalClient list \<Rightarrow> error + (real \<times> real)" where
  "client_aggregate_hessian env com_round_id selected_clients =
     (let hs = concat (map (\<lambda>c. hessian (learner env com_round_id (ref c)))
                 (filter (\<lambda>c. \<not> status (learner env com_round_id (ref c))) selected_clients));
          changed_percentage = map fst hs;
          changed_magnitude = map snd hs
      in if length changed_percentage = 0 then Inl ZeroDivisionError
         else Inr (sum_list changed_percentage / real (length changed_percentage),
                   sum_list changed_magnitude / real (length changed_magnitude)))"

text \<open>
  \<open>client_aggregate_regular_loss\<close> (lines 230-246): the sum of the benign selected
  clients' regular losses divided by their number.
\<close>

definition client_aggregate_regular_loss ::
  "Env \<Rightarrow> nat \<Rightarrow> LocalClient list \<Rightarrow> error + real" where
  "client_aggregate_regular_loss env com_round_id selected_clients =
     (let benign = filter (\<lambda>c. \<not> status (learner env com_round_id (ref c))) selected_clients;
          final_regular_loss = sum_list (map (\<lambda>c. regular_loss (learner env com_round_id (ref c))) benign);
          num_benign = length benign
      in if num_benign = 0 then Inl ZeroDivisionError
         else Inr (final_regular_loss / real num_benign))"

text \<open>
  The five \<open>wandb.log\<close> calls of lines 456-462.
\<close>

definition wandb_events ::
  "nat \<Rightarrow> real \<Rightarrow> real \<Rightarrow> nat \<Rightarrow> real \<Rightarrow> real \<Rightarrow> real \<Rightarrow> real \<Rightarrow> real \<Rightarrow> real \<Rightarrow> event list" where
  "wandb_events com_round_id acc loss mal_this_round m_acc m_loss m_conf
       changed_percentage changed_magnitude reg_loss =
     [WandbLog [(''Federator/Accuracy'', acc), (''Federator/Loss'', loss),
                (''Federator/Malicious number this round'', real mal_this_round)] com_round_id,
      WandbLog [(''Malicious/Accuracy'', m_acc), (''Malicious/Loss'', m_loss),
                (''Malicious/Confidence'', m_conf)] com_round_id,
      WandbLog [(''round'', real com_round_id)] com_round_id,
      WandbLog [(''Federator/Changed percentage'', changed_percentage),
                (''Federator/Changed magnitude'', changed_magnitude)] com_round_id,
      WandbLog [(''Federator/Regular loss'', reg_loss)] com_round_id]"

text \<open>
  The extra argument of the aggregation call of lines 438-440: \<open>tm_beta\<close> when the
  configured aggregation is \<open>trmean\<close>, none otherwise.
\<close>

definition aggregation_beta :: "Config \<Rightarrow> real option" where
  "aggregation_beta cfg = (if aggregation cfg \<noteq> ''trmean'' then None else Some (tm_beta cfg))"

subsection \<open>One round\<close>

text \<open>
  Lines 354-367 and 397-401 of \<open>exec_round\<close>, as the commands sent: the regular
  schedule every hundredth round, \<open>update_nn_parameters\<close> with \<open>last_model\<close> to
  every selected client, then the asynchronous training request to every selected client.
\<close>

definition dispatch_events :: "Config \<Rightarrow> Federator \<Rightarrow> nat \<Rightarrow> LocalClient list \<Rightarrow> bool \<Rightarrow> event list" where
  "dispatch_events cfg s com_round_id selected_clients flag =
     (if regular_schedule cfg \<and> com_round_id mod 100 = 0
      then set_regular_schedule s com_round_id else [])
     @ (let last_model = net s
        in map (\<lambda>client. UpdateNNParameters (ref client) last_model) selected_clients)
     @ map (\<lambda>client. ExecRound (ref client) (epochs cfg) flag) selected_clients"

text \<open>
  Lines 411-468 of \<open>exec_round\<close>, after the wait ended at poll \<open>t\<close>: the tables the
  callbacks filled, the adversarial-weighting pass, aggregation, the two evaluations, the
  record, the benign diagnostics, logging, the append and the defense controller.
\<close>

definition close_round ::
  "Config \<Rightarrow> Env \<Rightarrow> Federator \<Rightarrow> nat \<Rightarrow> nat list \<Rightarrow> nat \<Rightarrow> event list \<times> outcome" where
  "close_round cfg env s com_round_id sel t =
     (let selected_clients = map (\<lambda>i. clients s ! i) sel;
          is_mal = (\<lambda>c. status (learner env com_round_id (ref c)));
          mal_this_round = length (filter is_mal selected_clients)
      in case collect cfg env com_round_id (clients s) sel of
        (client_weights, client_sizes, cls) \<Rightarrow>
          (let s1 = s\<lparr>clients := cls\<rparr>
           in case boost_pass cfg is_mal selected_clients client_weights client_sizes of
             Inl e \<Rightarrow> ([Sleep 500], Raises e s1)
           | Inr (cw, cs) \<Rightarrow>
              (let beta = aggregation_beta cfg;
                   evs = [Sleep 500, Aggregate t cw cs beta]
               in case aggregation_method env cw cs beta of
                 Inl e \<Rightarrow> (evs, Raises e s1)
               | Inr updated_model \<Rightarrow>
                  (let s2 = s1\<lparr>net := updated_model\<rparr>
                   in case test env (net s2) of
                     (acc, loss, conf_mat) \<Rightarrow>
                      (case mal_test env (net s2) of
                        (m_acc, m_loss, m_conf) \<Rightarrow>
                         (let duration = end_time env com_round_id - start_time env com_round_id;
                              record = \<lparr>num_selected_clients = length selected_clients,
                                        round_id = com_round_id, round_duration = duration,
                                        test_loss = loss, test_accuracy = acc,
                                        mal_loss = m_loss, mal_accuracy = m_acc,
                                        mal_confidence = m_conf, confusion_mat = conf_mat\<rparr>
                          in case client_aggregate_hessian env com_round_id selected_clients of
                            Inl e \<Rightarrow> (evs, Raises e s2)
                          | Inr (changed_percentage, changed_magnitude) \<Rightarrow>
                             (case client_aggregate_regular_loss env com_round_id selected_clients of
                               Inl e \<Rightarrow> (evs, Raises e s2)
                             | Inr reg_loss \<Rightarrow>
                                (let s3 = s2\<lparr>records := records s2 @ [record]\<rparr>
                                 in (evs @ (if use_wandb cfg
                                            then wandb_events com_round_id acc loss mal_this_round
                                                   m_acc m_loss m_conf changed_percentage
                                                   changed_magnitude reg_loss
                                            else []),
                                     Returns (if config_defense_controller cfg
                                              then defense_controller s3 else s3))))))))))"

text \<open>
  \<open>exec_round\<close>: selection, the commands up to dispatch, the wait for all futures
  (one 100 ms sleep per unsuccessful poll), and the rest of the round. When the wait never
  ends, the events are those before it.
\<close>

definition exec_round :: "Config \<Rightarrow> Env \<Rightarrow> Federator \<Rightarrow> nat \<Rightarrow> event list \<times> outcome" where
  "exec_round cfg env s com_round_id =
     (case select_clients cfg env s com_round_id of
        Inl e \<Rightarrow> ([], Raises e (s\<lparr>np_random := np_seed env com_round_id\<rparr>))
      | Inr (sel, s1) \<Rightarrow>
         (let selected_clients = map (\<lambda>i. clients s1 ! i) sel
          in case start_defense cfg (defense_controller_counter s1) of
            (flag, counter) \<Rightarrow>
             (let s2 = s1\<lparr>defense_controller_counter := counter\<rparr>;
                  training_futures =
                    map (\<lambda>client. done_tick (learner env com_round_id (ref client))) selected_clients
              in case wait_futures 0 training_futures of
                   None \<Rightarrow>
                     (dispatch_events cfg s1 com_round_id selected_clients flag, Stalls s2)
                 | Some t \<Rightarrow>
                    (case close_round cfg env s2 com_round_id sel t of
                       (evs, out) \<Rightarrow>
                         (dispatch_events cfg s1 com_round_id selected_clients flag
                          @ replicate t (Sleep 100) @ evs, out)))))"

subsection \<open>The main loop\<close>

text \<open>
  \<open>save_data\<close>: the Federator's own ledger (the container named \<open>federator\<close>), then
  the ledger of every registered client.
\<close>

definition save_data :: "Federator \<Rightarrow> event list" where
  "save_data s = Save ''federator'' # map (\<lambda>client. Save (name client)) (clients s)"

text \<open>
  The loop of \<open>run\<close> (lines 187-188) over the round indices still to run: a round
  that raises or stalls ends the loop with that outcome.
\<close>

fun exec_rounds :: "Config \<Rightarrow> Env \<Rightarrow> nat list \<Rightarrow> Federator \<Rightarrow> event list \<times> outcome" where
  "exec_rounds cfg env [] s = ([], Returns s)"
| "exec_rounds cfg env (communication_round # rest) s =
     (case exec_round cfg env s communication_round of
        (evs, Returns s') \<Rightarrow>
          (case exec_rounds cfg env rest s' of
             (evs', out) \<Rightarrow> (CallExecRound communication_round # evs @ evs', out))
      | (evs, out) \<Rightarrow> (CallExecRound communication_round # evs, out))"

text \<open>
  \<open>run\<close> from line 187 on, for a Federator whose clients are registered and ready (the
  setup of lines 168-184 appends no record and saves nothing): the rounds of
  \<open>range(self.config.rounds)\<close>, then \<open>save_data\<close>.
\<close>

definition run :: "Config \<Rightarrow> Env \<Rightarrow> Federator \<Rightarrow> event list \<times> outcome" where
  "run cfg env s =
     (case exec_rounds cfg env [0..<rounds cfg] s of
        (evs, Returns s') \<Rightarrow> (evs @ save_data s', Returns s')
      | (evs, out) \<Rightarrow> (evs, out))"

section \<open>The Orchestrator (fltk/core/distributed/orchestrator.py)\<close>

text \<open>
  What \<open>run\<close> and \<open>run_federated\<close> read of an \<open>Arrival\<close>, and the fields of
  \<open>DistributedArrivalTask\<close> and \<open>FederatedArrivalTask\<close> they use (the task classes
  are not among the sources). A federated task is built without a priority; its
  \<open>type_map\<close> is given as the items of the ordered dictionary.
\<close>

record Arrival =
  arrival_priority :: int
  arrival_network :: string
  arrival_dataset :: string
  worker_replication :: "(string \<times> nat) list"

record ArrivalTask =
  priority :: int
  task_id :: nat
  network :: string
  dataset :: string
  type_map :: "(string \<times> nat) list"

text \<open>
  The state of the Orchestrator: \<open>_alive\<close>, the queue \<open>pending_tasks\<close> (the list
  in which Python's \<open>PriorityQueue\<close> keeps its items as a binary heap),
  \<open>deployed_tasks\<close>, and the next identifier \<open>uuid.uuid4()\<close> returns.
\<close>

record Orchestrator =
  alive :: bool
  pending_tasks :: "ArrivalTask list"
  deployed_tasks :: "ArrivalTask list"
  next_uuid :: nat

text \<open>
  What the Orchestrator does to the cluster: clearing old jobs, creating a job (built by
  \<open>construct_job\<close> from the task and, in the federated variant, the names of its
  configuration maps), creating a configuration map, and sleeping (seconds). A
  configuration map's name \<open>f'{uuid}_{tpe}_{replication}'\<close> is the triple of its parts.
\<close>

type_synonym config_map_name = "nat \<times> string \<times> nat"

datatype orch_event =
    ClearJobs
  | CreateJob ArrivalTask "(string \<times> config_map_name) list"
  | CreateConfigMap config_map_name
  | SleepSeconds nat

subsection \<open>The priority queue\<close>

text \<open>
  \<open>PriorityQueue.put\<close> is \<open>heapq.heappush\<close> and \<open>PriorityQueue.get\<close> is
  \<open>heapq.heappop\<close> on the queue's list; the functions below are those of Python's
  \<open>heapq\<close>, with \<open>a < b\<close> on items read as \<open>key a < key b\<close>.
  \<open>_siftdown(heap, startpos, pos)\<close> moves the item at \<open>pos\<close> towards the root past
  every parent it is less than.
\<close>

function siftdown_loop :: "('a \<Rightarrow> int) \<Rightarrow> 'a list \<Rightarrow> nat \<Rightarrow> nat \<Rightarrow> 'a \<Rightarrow> 'a list" where
  "siftdown_loop key heap startpos pos newitem =
     (if startpos < pos
      then (let parentpos = (pos - 1) div 2;
                parent = heap ! parentpos
            in if key newitem < key parent
               then siftdown_loop key (heap[pos := parent]) startpos parentpos newitem
               else heap[pos := newitem])
      else heap[pos := newitem])"
  by pat_completeness auto
termination
  by (relation "measure (\<lambda>(key, heap, startpos, pos, newitem). pos)") auto

definition siftdown :: "('a \<Rightarrow> int) \<Rightarrow> 'a list \<Rightarrow> nat \<Rightarrow> nat \<Rightarrow> 'a list" where
  "siftdown key heap startpos pos = siftdown_loop key heap startpos pos (heap ! pos)"

text \<open>
  \<open>_siftup(heap, pos)\<close> moves the smaller child up into the gap until the gap is at a
  leaf (the right child when it exists and the left one is not less than it), puts the
  item there and sifts it down from there.
\<close>

function siftup_loop :: "('a \<Rightarrow> int) \<Rightarrow> 'a list \<Rightarrow> nat \<Rightarrow> 'a list \<times> nat" where
  "siftup_loop key heap pos =
     (let childpos = 2 * pos + 1
      in if childpos < length heap
         then (let rightpos = childpos + 1;
                   childpos' = (if rightpos < length heap
                                   \<and> \<not> key (heap ! childpos) < key (heap ! rightpos)
                                then rightpos else childpos)
               in siftup_loop key (heap[pos := heap ! childpos']) childpos')
         else (heap, pos))"
  by pat_completeness auto
termination
  by (relation "measure (\<lambda>(key, heap, pos). length heap - pos)") (auto simp: Let_def)

definition siftup :: "('a \<Rightarrow> int) \<Rightarrow> 'a list \<Rightarrow> nat \<Rightarrow> 'a list" where
  "siftup key heap pos =
     (let newitem = heap ! pos
      in case siftup_loop key heap pos of
           (heap', pos') \<Rightarrow> siftdown key (heap'[pos' := newitem]) pos pos')"

definition heappush :: "('a \<Rightarrow> int) \<Rightarrow> 'a list \<Rightarrow> 'a \<Rightarrow> 'a list" where
  "heappush key heap item = siftdown key (heap @ [item]) 0 (length heap)"

text \<open>
  \<open>heappop\<close>: the last item is taken off the list; if items remain, the root is
  returned and the last item is put in its place and sifted. On an empty list there is
  nothing to return (\<open>run\<close> asks \<open>empty()\<close> before every \<open>get()\<close>).
\<close>

definition heappop :: "('a \<Rightarrow> int) \<Rightarrow> 'a list \<Rightarrow> ('a \<times> 'a list) option" where
  "heappop key heap =
     (if heap = [] then None
      else (let lastelt = last heap;
                heap' = butlast heap
            in if heap' \<noteq> [] then Some (heap' ! 0, siftup key (heap'[0 := lastelt]) 0)
               else Some (lastelt, [])))"

text \<open>
  The heap order \<open>heapq\<close> maintains: no item is less than its parent. \<open>heap_except\<close>
  is that order for all pairs of parent and child that do not involve the position
  \<open>pos\<close>.
\<close>

definition is_heap :: "('a \<Rightarrow> int) \<Rightarrow> 'a list \<Rightarrow> bool" where
  "is_heap key heap =
     (\<forall>i. 0 < i \<and> i < length heap \<longrightarrow> key (heap ! ((i - 1) div 2)) \<le> key (heap ! i))"

definition heap_except :: "('a \<Rightarrow> int) \<Rightarrow> 'a list \<Rightarrow> nat \<Rightarrow> bool" where
  "heap_except key heap pos =
     (\<forall>i. 0 < i \<and> i < length heap \<and> i \<noteq> pos \<and> (i - 1) div 2 \<noteq> pos
          \<longrightarrow> key (heap ! ((i - 1) div 2)) \<le> key (heap ! i))"

subsection \<open>The distributed variant\<close>

text \<open>
  Lines 101-106: the task built for an arrival, with the identifier given to it.
\<close>

definition DistributedArrivalTask :: "nat \<Rightarrow> Arrival \<Rightarrow> ArrivalTask" where
  "DistributedArrivalTask unique_identifier arrival =
     \<lparr>priority = arrival_priority arrival, task_id = unique_identifier,
      network = arrival_network arrival, dataset = arrival_dataset arrival,
      type_map = []\<rparr>"

text \<open>
  Lines 99-109: one arrival becomes a task with a fresh identifier and is put in the
  queue. Modelled from the spec: the task classes are not among the sources; the spec
  orders the queue by arrival priority, so two tasks compare as their priorities do.
\<close>

definition enqueue_arrival :: "Orchestrator \<Rightarrow> Arrival \<Rightarrow> Orchestrator" where
  "enqueue_arrival s arrival =
     (let task = DistributedArrivalTask (next_uuid s) arrival
      in s\<lparr>pending_tasks := heappush priority (pending_tasks s) task,
           next_uuid := Suc (next_uuid s)\<rparr>)"

text \<open>
  The main loop of \<open>run\<close> (lines 95-129). Each element of the list is one pass the
  time budget allows, with the arrivals waiting at that pass. The inner loop over the
  pending queue takes one task, creates its job, records it as deployed, stops the
  Orchestrator and returns.
\<close>

fun run_loop :: "Orchestrator \<Rightarrow> Arrival list list \<Rightarrow> orch_event list \<times> Orchestrator" where
  "run_loop s [] = ([], s)"
| "run_loop s (arrivals # later) =
     (if \<not> alive s then ([], s)
      else (let s1 = foldl enqueue_arrival s arrivals
            in case heappop priority (pending_tasks s1) of
                 None \<Rightarrow> (case run_loop s1 later of (evs, s') \<Rightarrow> (SleepSeconds 5 # evs, s'))
               | Some (curr_task, rest) \<Rightarrow>
                   ([CreateJob curr_task []],
                    s1\<lparr>pending_tasks := rest,
                       deployed_tasks := deployed_tasks s1 @ [curr_task],
                       alive := False\<rparr>)))"

definition orchestrator_run :: "Orchestrator \<Rightarrow> bool \<Rightarrow> Arrival list list \<Rightarrow> orch_event list \<times> Orchestrator" where
  "orchestrator_run s clear passes =
     (case run_loop (s\<lparr>alive := True\<rparr>) passes of
        (evs, s') \<Rightarrow> ((if clear then [ClearJobs] else []) @ evs, s'))"

subsection \<open>The federated variant\<close>

text \<open>
  What \<open>_prepare_experiment_maps\<close> hands to \<open>jinja2.Template\<close>. The constructor takes
  the text of a template; line 25 gives it the open file itself, which it refuses with a
  \<open>TypeError\<close>.
\<close>

datatype template_source = TemplateText string | FileObject string

definition Template :: "template_source \<Rightarrow> error + string" where
  "Template source =
     (case source of TemplateText text \<Rightarrow> Inr text | FileObject path \<Rightarrow> Inl TypeError)"

text \<open>
  \<open>_prepare_experiment_maps\<close>: the template first, then one configuration map and one
  name per learner type of the task (a configuration map is given by its name). The
  result is the pair \<open>(tpe_dict, name_dict)\<close>.
\<close>

definition prepare_experiment_maps ::
  "ArrivalTask \<Rightarrow> nat \<Rightarrow> nat \<Rightarrow>
   error + ((string \<times> config_map_name) list \<times> (string \<times> config_map_name) list)" where
  "prepare_experiment_maps task uuid replication =
     (case Template (FileObject ''configs/node.jinja.yaml'') of
        Inl e \<Rightarrow> Inl e
      | Inr template \<Rightarrow>
          Inr (map (\<lambda>(tpe, n). (tpe, (uuid, tpe, replication))) (type_map task),
               map (\<lambda>(tpe, n). (tpe, (uuid, tpe, replication))) (type_map task)))"

text \<open>
  \<open>__create_config_maps\<close> iterates over \<open>config_maps.values()\<close> and unpacks each
  value into two names; a \<open>V1ConfigMap\<close> does not unpack, so the call raises on the
  first value and creates nothing.
\<close>

definition create_config_maps :: "(string \<times> config_map_name) list \<Rightarrow> error + orch_event list" where
  "create_config_maps config_maps = (if config_maps = [] then Inr [] else Inl TypeError)"

text \<open>
  Lines 153-173: a federated task is built without a priority; \<open>key\<close> is the order of
  the federated tasks in the queue.
\<close>

definition enqueue_federated_arrival ::
  "(ArrivalTask \<Rightarrow> int) \<Rightarrow> Orchestrator \<Rightarrow> Arrival \<Rightarrow> Orchestrator" where
  "enqueue_federated_arrival key s arrival =
     (let task = \<lparr>priority = 0, task_id = next_uuid s,
                  network = arrival_network arrival, dataset = arrival_dataset arrival,
                  type_map = worker_replication arrival\<rparr>
      in s\<lparr>pending_tasks := heappush key (pending_tasks s) task,
           next_uuid := Suc (next_uuid s)\<rparr>)"

text \<open>
  The main loop of \<open>run_federated\<close> (lines 148-195): the task is taken from the queue,
  its maps are prepared, the job is constructed, the maps are created and then the job.
  An exception ends the call with the task taken and nothing deployed.
\<close>

fun run_federated_loop ::
  "(ArrivalTask \<Rightarrow> int) \<Rightarrow> Orchestrator \<Rightarrow> Arrival list list \<Rightarrow>
   orch_event list \<times> error option \<times> Orchestrator" where
  "run_federated_loop key s [] = ([], None, s)"
| "run_federated_loop key s (arrivals # later) =
     (if \<not> alive s then ([], None, s)
      else (let s1 = foldl (enqueue_federated_arrival key) s arrivals
            in case heappop key (pending_tasks s1) of
                 None \<Rightarrow> (case run_federated_loop key s1 later of
                             (evs, r) \<Rightarrow> (SleepSeconds 5 # evs, r))
               | Some (curr_task, rest) \<Rightarrow>
                   (let s2 = s1\<lparr>pending_tasks := rest\<rparr>
                    in case prepare_experiment_maps curr_task (task_id curr_task) 1 of
                         Inl e \<Rightarrow> ([], Some e, s2)
                       | Inr (config_dict, configmap_name_dict) \<Rightarrow>
                           (case create_config_maps config_dict of
                              Inl e \<Rightarrow> ([], Some e, s2)
                            | Inr evs \<Rightarrow>
                                (evs @ [CreateJob curr_task configmap_name_dict], None,
                                 s2\<lparr>deployed_tasks := deployed_tasks s2 @ [curr_task],
                                    alive := False\<rparr>)))))"

section \<open>Reading a trace\<close>

text \<open>The defense flags of the training requests of a trace, in order.\<close>

definition dispatch_flags :: "event list \<Rightarrow> bool list" where
  "dispatch_flags evs = concat (map (\<lambda>e. case e of ExecRound c n d \<Rightarrow> [d] | _ \<Rightarrow> []) evs)"

text \<open>The round indices \<open>run\<close> called \<open>exec_round\<close> with, in order.\<close>

definition rounds_called :: "event list \<Rightarrow> nat list" where
  "rounds_called evs = concat (map (\<lambda>e. case e of CallExecRound r \<Rightarrow> [r] | _ \<Rightarrow> []) evs)"

definition is_save :: "event \<Rightarrow> bool" where
  "is_save e = (case e of Save n \<Rightarrow> True | _ \<Rightarrow> False)"

text \<open>The state of the Federator at the end of a call.\<close>

definition outcome_state :: "outcome \<Rightarrow> Federator" where
  "outcome_state out = (case out of Returns s \<Rightarrow> s | Raises e s \<Rightarrow> s | Stalls s \<Rightarrow> s)"

text \<open>The exception a call ended with, if it raised.\<close>

definition outcome_error :: "outcome \<Rightarrow> error option" where
  "outcome_error out = (case out of Raises e s \<Rightarrow> Some e | _ \<Rightarrow> None)"

text \<open>
  The drop the defense controller looks for between two consecutive records: the clean
  accuracy of the later one is more than 0.5 below that of the earlier one.
\<close>

definition accuracy_drop :: "FederatorRecord \<Rightarrow> FederatorRecord \<Rightarrow> bool" where
  "accuracy_drop earlier later = (test_accuracy earlier - test_accuracy later > 0.5)"

section \<open>Example worlds\<close>

text \<open>
  Small concrete environments on which the theorems below are run. The generator counts
  up from the seed; aggregation returns the first contribution; the clean accuracy is 90
  for the network \<open>[0]\<close>, 80 for \<open>[1]\<close> and 70 for every other one; a learner
  trains the network \<open>[r]\<close> in round \<open>r\<close>.
\<close>

definition ex_client :: "string \<Rightarrow> LocalClient" where
  "ex_client n = \<lparr>name = n, ref = n, data_size = 0, exp_data = []\<rparr>"

definition ex_learner :: "bool \<Rightarrow> nat option \<Rightarrow> weights \<Rightarrow> (real \<times> real) list \<Rightarrow> real \<Rightarrow> Learner" where
  "ex_learner m d w h l =
     \<lparr>status = m, datasize = 10, hessian = h, regular_loss = l,
      train_result = \<lparr>tr_train_loss = 0, tr_weights = w, tr_accuracy = 0, tr_test_loss = 0,
                      tr_round_duration = 0, tr_train_duration = 0, tr_test_duration = 0,
                      tr_c_mat = []\<rparr>,
      done_tick = d\<rparr>"

definition ex_env :: "(nat \<Rightarrow> string \<Rightarrow> Learner) \<Rightarrow> Env" where
  "ex_env ls =
     \<lparr>np_seed = (\<lambda>r. r), np_next = (\<lambda>g. (g, Suc g)), learner = ls,
      aggregation_method =
        (\<lambda>cw cs b. case cw of [] \<Rightarrow> Inl AggregationError | (n, w) # rest \<Rightarrow> Inr w),
      test = (\<lambda>w. (if w = [0] then 90 else if w = [1] then 80 else 70, 1, [])),
      mal_test = (\<lambda>w. (0, 0, 0)),
      start_time = (\<lambda>r. real r), end_time = (\<lambda>r. real r + 1)\<rparr>"

text \<open>
  Two registered clients, both selected in each of two rounds; \<open>client2\<close> is flagged
  and its future completes at the first poll after dispatch, \<open>client1\<close> is benign and
  completes at the second.
\<close>

definition ex_cfg :: Config where
  "ex_cfg = \<lparr>rounds = 2, epochs = 1, clients_per_round = 2, regular_schedule = False,
     config_defense_controller = False, mal_boost = 1, aggregation = ''fedavg'', tm_beta = 0,
     use_wandb = False\<rparr>"

definition ex_fed :: Federator where
  "ex_fed = \<lparr>clients = [ex_client ''client1'', ex_client ''client2''], records = [], net = [0],
     defense_controller_counter = 0, np_random = 0\<rparr>"

definition ex_learners :: "nat \<Rightarrow> string \<Rightarrow> Learner" where
  "ex_learners r c =
     ex_learner (c = ''client2'') (Some (if c = ''client1'' then 2 else 1)) [real r] [(1, 2)] 1"

text \<open>The same world with both clients benign and other diagnostics.\<close>

definition ex_learners_benign :: "nat \<Rightarrow> string \<Rightarrow> Learner" where
  "ex_learners_benign r c =
     ex_learner False (Some (if c = ''client1'' then 2 else 1)) [real r] [(3, 4)] 5"

text \<open>A world whose only benign learner reports an empty Hessian list.\<close>

definition ex_learners_no_hessian :: "nat \<Rightarrow> string \<Rightarrow> Learner" where
  "ex_learners_no_hessian r c = ex_learner False (Some 0) [real r] [] 1"

text \<open>
  The defense controller switched on: one client, selected in each of eight rounds.
\<close>

definition ex_cfg_defense :: Config where
  "ex_cfg_defense = \<lparr>rounds = 8, epochs = 1, clients_per_round = 1, regular_schedule = False,
     config_defense_controller = True, mal_boost = 1, aggregation = ''fedavg'', tm_beta = 0,
     use_wandb = False\<rparr>"

definition ex_fed_one :: Federator where
  "ex_fed_one = \<lparr>clients = [ex_client ''client1''], records = [], net = [0],
     defense_controller_counter = 0, np_random = 0\<rparr>"

text \<open>Five selected clients of which \<open>client3\<close> is flagged, and their filled tables.\<close>

definition ex_five :: "LocalClient list" where
  "ex_five = map ex_client [''client1'', ''client2'', ''client3'', ''client4'', ''client5'']"

definition ex_flagged :: "LocalClient \<Rightarrow> bool" where
  "ex_flagged c = (name c = ''client3'')"

definition ex_weights :: "(string \<times> weights) list" where
  "ex_weights = [(''client1'', [1]), (''client2'', [2]), (''client3'', [3]),
                 (''client4'', [4]), (''client5'', [5])]"

definition ex_sizes :: "(string \<times> int) list" where
  "ex_sizes = [(''client1'', 10), (''client2'', 20), (''client3'', 30),
               (''client4'', 40), (''client5'', 50)]"

text \<open>An idle Orchestrator and two arrivals of priorities 1 and 2.\<close>

definition ex_orchestrator :: Orchestrator where
  "ex_orchestrator = \<lparr>alive = False, pending_tasks = [], deployed_tasks = [], next_uuid = 0\<rparr>"

definition ex_arrival :: "int \<Rightarrow> Arrival" where
  "ex_arrival p = \<lparr>arrival_priority = p, arrival_network = ''net'', arrival_dataset = ''data'',
     worker_replication = []\<rparr>"

text \<open>A Federator with the five clients registered.\<close>

definition ex_fed_five :: Federator where
  "ex_fed_five = \<lparr>clients = ex_five, records = [], net = [0],
     defense_controller_counter = 0, np_random = 7\<rparr>"

text \<open>
  The five clients all selected in a round with a malicious boost of 3; a learner's
  trained network is its client number.
\<close>

definition ex_cfg_boost :: Config where
  "ex_cfg_boost = \<lparr>rounds = 1, epochs = 1, clients_per_round = 5, regular_schedule = False,
     config_defense_controller = False, mal_boost = 3, aggregation = ''fedavg'', tm_beta = 0,
     use_wandb = False\<rparr>"

definition ex_learners_five :: "nat \<Rightarrow> string \<Rightarrow> Learner" where
  "ex_learners_five r c =
     ex_learner (c = ''client3'') (Some 0)
       (if c = ''client1'' then [1] else if c = ''client2'' then [2]
        else if c = ''client3'' then [3] else if c = ''client4'' then [4] else [5])
       [(1, 2)] 1"

text \<open>The two-client world with both clients flagged.\<close>

definition ex_learners_flagged :: "nat \<Rightarrow> string \<Rightarrow> Learner" where
  "ex_learners_flagged r c =
     ex_learner True (Some (if c = ''client1'' then 2 else 1)) [real r] [(1, 2)] 1"

text \<open>The two-client configuration with logging to wandb switched on.\<close>

definition ex_cfg_wandb :: Config where
  "ex_cfg_wandb = ex_cfg\<lparr>use_wandb := True\<rparr>"

text \<open>A federated arrival with two learner types.\<close>

definition ex_federated_arrival :: Arrival where
  "ex_federated_arrival = \<lparr>arrival_priority = 1, arrival_network = ''net'',
     arrival_dataset = ''data'', worker_replication = [(''Master'', 1), (''Worker'', 2)]\<rparr>"

section \<open>The shape of a round\<close>

lemma exec_round_cases:
  obtains (fail) e where "select_clients cfg env s r = Inl e"
      "exec_round cfg env s r = ([], Raises e (s\<lparr>np_random := np_seed env r\<rparr>))"
  | (stall) sel s1 where "select_clients cfg env s r = Inr (sel, s1)"
      "wait_futures 0 (map (\<lambda>i. done_tick (learner env r (ref (clients s1 ! i)))) sel) = None"
      "exec_round cfg env s r =
         (dispatch_events cfg s1 r (map (\<lambda>i. clients s1 ! i) sel)
            (fst (start_defense cfg (defense_controller_counter s1))),
          Stalls (s1\<lparr>defense_controller_counter :=
                      snd (start_defense cfg (defense_controller_counter s1))\<rparr>))"
  | (ok) sel s1 t evs2 out where "select_clients cfg env s r = Inr (sel, s1)"
      "wait_futures 0 (map (\<lambda>i. done_tick (learner env r (ref (clients s1 ! i)))) sel) = Some t"
      "close_round cfg env
         (s1\<lparr>defense_controller_counter :=
               snd (start_defense cfg (defense_controller_counter s1))\<rparr>) r sel t = (evs2, out)"
      "exec_round cfg env s r =
         (dispatch_events cfg s1 r (map (\<lambda>i. clients s1 ! i) sel)
            (fst (start_defense cfg (defense_controller_counter s1)))
          @ replicate t (Sleep 100) @ evs2, out)"
proof (cases "select_clients cfg env s r")
  case (Inl e)
  then show ?thesis using fail by (simp add: exec_round_def)
next
  case (Inr p)
  obtain sel s1 where p: "p = (sel, s1)" by (cases p)
  show ?thesis
  proof (cases "wait_futures 0 (map (\<lambda>i. done_tick (learner env r (ref (clients s1 ! i)))) sel)")
    case None
    then show ?thesis using stall[of sel s1] Inr p
      by (simp add: exec_round_def Let_def comp_def case_prod_beta)
  next
    case (Some t)
    obtain evs2 out where c: "close_round cfg env
         (s1\<lparr>defense_controller_counter :=
               snd (start_defense cfg (defense_controller_counter s1))\<rparr>) r sel t = (evs2, out)"
      by (cases "close_round cfg env
         (s1\<lparr>defense_controller_counter :=
               snd (start_defense cfg (defense_controller_counter s1))\<rparr>) r sel t")
    show ?thesis using ok[of sel s1 t evs2 out] Inr p Some c
      by (simp add: exec_round_def Let_def comp_def case_prod_beta)
  qed
qed

lemma close_round_events:
  "close_round cfg env s r sel t = (evs, out) \<Longrightarrow> e \<in> set evs \<Longrightarrow>
     e = Sleep 500 \<or> (\<exists>cw cs. e = Aggregate t cw cs (aggregation_beta cfg)) \<or> (\<exists>l. e = WandbLog l r)"
  by (auto simp: close_round_def Let_def wandb_events_def split: sum.splits prod.splits if_splits)

lemma dispatch_flag:
  "ExecRound c n d \<in> set (dispatch_events cfg s r cls flag) \<Longrightarrow> d = flag"
  by (auto simp: dispatch_events_def set_regular_schedule_def split: if_splits)

lemma exec_round_dispatch_flag:
  assumes "ExecRound c n d \<in> set (fst (exec_round cfg env s r))"
  shows "d = fst (start_defense cfg (defense_controller_counter s))"
proof (cases rule: exec_round_cases[of cfg env s r])
  case (fail e)
  with assms show ?thesis by simp
next
  case (stall sel s1)
  then have "defense_controller_counter s1 = defense_controller_counter s"
    by (auto simp: select_clients_def Let_def split: sum.splits)
  with stall assms show ?thesis by (auto dest: dispatch_flag)
next
  case (ok sel s1 t evs2 out)
  then have c: "defense_controller_counter s1 = defense_controller_counter s"
    by (auto simp: select_clients_def Let_def split: sum.splits)
  have "ExecRound c n d \<notin> set evs2"
    using close_round_events[OF ok(3), of "ExecRound c n d"] by auto
  with assms ok(4) have "ExecRound c n d \<in> set (dispatch_events cfg s1 r (map (\<lambda>i. clients s1 ! i) sel) (fst (start_defense cfg (defense_controller_counter s1))))"
    by auto
  then show ?thesis using c by (auto dest: dispatch_flag)
qed

text \<open>
  C10. With the defense controller switched off in the configuration, every training
  request of a round carries the defense flag \<open>True\<close>, whatever the state of the
  Federator (its records and its countdown) at the start of the round, and also when
  the round then raises or stalls.
\<close>

theorem defense_flag_true_when_disabled:
  assumes "\<not> config_defense_controller cfg"
    and "ExecRound c n d \<in> set (fst (exec_round cfg env s r))"
  shows "d"
  using exec_round_dispatch_flag[OF assms(2)] assms(1) by (simp add: start_defense_def)

theorem defense_flag_true_when_disabled_witness:
  "\<not> config_defense_controller ex_cfg
   \<and> fst (exec_round ex_cfg (ex_env ex_learners) ex_fed 0) =
       [UpdateNNParameters ''client1'' [0], UpdateNNParameters ''client2'' [0],
        ExecRound ''client1'' 1 True, ExecRound ''client2'' 1 True,
        Sleep 100, Sleep 100, Sleep 500,
        Aggregate 2 [(''client2'', [0]), (''client1'', [0])]
          [(''client2'', 10), (''client1'', 10)] None]"
proof -
  have h1: "\<not> config_defense_controller ex_cfg" by code_simp
  have h2: "fst (exec_round ex_cfg (ex_env ex_learners) ex_fed 0) =
       [UpdateNNParameters ''client1'' [0], UpdateNNParameters ''client2'' [0],
        ExecRound ''client1'' 1 True, ExecRound ''client2'' 1 True,
        Sleep 100, Sleep 100, Sleep 500,
        Aggregate 2 [(''client2'', [0]), (''client1'', [0])]
          [(''client2'', 10), (''client1'', 10)] None]" by code_simp
  have h3: "ExecRound ''client2'' 1 True \<in> set (fst (exec_round ex_cfg (ex_env ex_learners) ex_fed 0))"
    unfolding h2 by simp
  from defense_flag_true_when_disabled[OF h1 h3] h1 h2 show ?thesis by simp
qed

lemma wait_futures_Some:
  assumes "wait_futures t fs = Some T"
  shows "all_futures_done T fs \<and> t \<le> T \<and> (\<forall>t'. t \<le> t' \<and> t' < T \<longrightarrow> \<not> all_futures_done t' fs)"
proof (rule wait_futures.raw_induct[OF _ assms])
  fix wf :: "nat \<Rightarrow> nat option list \<Rightarrow> nat option" and t fs T
  assume IH: "\<And>t fs y. wf t fs = Some y \<Longrightarrow>
      all_futures_done y fs \<and> t \<le> y \<and> (\<forall>t'. t \<le> t' \<and> t' < y \<longrightarrow> \<not> all_futures_done t' fs)"
    and eq: "(if all_futures_done t fs then Some t else wf (Suc t) fs) = Some T"
  show "all_futures_done T fs \<and> t \<le> T \<and> (\<forall>t'. t \<le> t' \<and> t' < T \<longrightarrow> \<not> all_futures_done t' fs)"
  proof (cases "all_futures_done t fs")
    case True
    with eq show ?thesis by auto
  next
    case False
    with eq have "wf (Suc t) fs = Some T" by simp
    from IH[OF this] False show ?thesis
      by (metis Suc_leD Suc_leI le_neq_implies_less)
  qed
qed

lemma wait_futures_returns:
  "all_futures_done T fs \<Longrightarrow> t \<le> T \<Longrightarrow> \<exists>T'. wait_futures t fs = Some T'"
proof (induction "T - t" arbitrary: t)
  case 0
  then have "t = T" by simp
  with 0 show ?case by (subst wait_futures.simps) simp
next
  case (Suc k)
  show ?case
  proof (cases "all_futures_done t fs")
    case True
    then show ?thesis by (subst wait_futures.simps) simp
  next
    case False
    from Suc have "k = T - Suc t" "Suc t \<le> T" by auto
    from Suc(1)[OF this(1) Suc(3) this(2)] obtain T' where "wait_futures (Suc t) fs = Some T'" ..
    with False show ?thesis by (subst wait_futures.simps) simp
  qed
qed

lemma future_done_mono: "future_done t f \<Longrightarrow> t \<le> t' \<Longrightarrow> future_done t' f"
  by (auto simp: future_done_def split: option.splits)

lemma all_complete_done:
  "list_all (\<lambda>f. f \<noteq> None) fs \<Longrightarrow> \<exists>T. all_futures_done T fs"
proof (induction fs)
  case Nil
  then show ?case by (simp add: all_futures_done_def)
next
  case (Cons f fs)
  then obtain T where T: "all_futures_done T fs" by auto
  from Cons(2) obtain d where d: "f = Some d" by auto
  have "all_futures_done (max d T) (f # fs)"
    using T d by (auto simp: all_futures_done_def list_all_iff future_done_def
        intro: future_done_mono[unfolded future_done_def] split: option.splits)
  then show ?case ..
qed


lemma select_clients_keeps:
  "select_clients cfg env s r = Inr (sel, s1) \<Longrightarrow>
     clients s1 = clients s \<and> net s1 = net s \<and> records s1 = records s
     \<and> defense_controller_counter s1 = defense_controller_counter s"
  by (auto simp: select_clients_def Let_def split: sum.splits)

lemma close_round_shape:
  assumes "close_round cfg env s r sel t = (evs, out)"
  shows "evs = [Sleep 500] \<or>
         (\<exists>cw cs ws. evs = Sleep 500 # Aggregate t cw cs (aggregation_beta cfg) # ws
                      \<and> (\<forall>e\<in>set ws. \<exists>l. e = WandbLog l r))"
  using assms
  by (auto simp: close_round_def Let_def wandb_events_def split: sum.splits prod.splits if_splits)

lemma dispatch_events_split:
  "dispatch_events cfg s r cls flag =
     ((if regular_schedule cfg \<and> r mod 100 = 0 then set_regular_schedule s r else [])
      @ map (\<lambda>client. UpdateNNParameters (ref client) (net s)) cls)
     @ map (\<lambda>client. ExecRound (ref client) (epochs cfg) flag) cls"
  by (simp add: dispatch_events_def Let_def)

lemma ExecRound_in_dispatch:
  "ExecRound c n d \<in> set (dispatch_events cfg s r cls flag) \<longleftrightarrow>
     c \<in> ref ` set cls \<and> n = epochs cfg \<and> d = flag"
  by (auto simp: dispatch_events_def set_regular_schedule_def)

lemma no_Aggregate_in_dispatch:
  "Aggregate t cw cs b \<notin> set (dispatch_events cfg s r cls flag)"
  by (auto simp: dispatch_events_def set_regular_schedule_def)

lemma no_Sleep_in_dispatch:
  "filter (\<lambda>e. e = Sleep 100) (dispatch_events cfg s r cls flag) = []"
  by (auto simp: dispatch_events_def set_regular_schedule_def filter_empty_conv)

text \<open>
  C1. In a round, the aggregation method is invoked only after the wait: whenever the
  trace of \<open>exec_round\<close> holds the aggregation call, made after the poll \<open>t\<close>, every
  training request of that round was sent before it, the future of every learner the round
  dispatched to reports done at poll \<open>t\<close>, and exactly \<open>t\<close> sleeps of 100 ms
  precede the call. A round with a future that never completes stalls and never
  aggregates (\<open>exec_round_stalls_iff\<close>).
\<close>

theorem aggregation_after_all_futures_done:
  assumes agg: "Aggregate t cw cs b \<in> set (fst (exec_round cfg env s r))"
    and disp: "ExecRound c n d \<in> set (fst (exec_round cfg env s r))"
  shows "future_done t (done_tick (learner env r c))
         \<and> (\<exists>pre post. fst (exec_round cfg env s r) = pre @ Aggregate t cw cs b # post
               \<and> ExecRound c n d \<in> set pre
               \<and> length (filter (\<lambda>e. e = Sleep 100) pre) = t)"
proof (cases rule: exec_round_cases[of cfg env s r])
  case (fail e)
  with agg show ?thesis by simp
next
  case (stall sel s1)
  with agg show ?thesis by (simp add: no_Aggregate_in_dispatch)
next
  case (ok sel s1 t' evs2 out)
  let ?cls = "map (\<lambda>i. clients s1 ! i) sel"
  let ?D = "dispatch_events cfg s1 r ?cls (fst (start_defense cfg (defense_controller_counter s1)))"
  have evs: "fst (exec_round cfg env s r) = ?D @ replicate t' (Sleep 100) @ evs2"
    using ok(4) by simp
  have in2: "Aggregate t cw cs b \<in> set evs2"
    using agg evs by (auto simp: no_Aggregate_in_dispatch)
  from close_round_shape[OF ok(3)] in2
  obtain cw' cs' ws where evs2: "evs2 = Sleep 500 # Aggregate t' cw' cs' (aggregation_beta cfg) # ws"
    and ws: "\<forall>e\<in>set ws. \<exists>l. e = WandbLog l r"
    by auto
  from in2 evs2 ws have same: "Aggregate t cw cs b = Aggregate t' cw' cs' (aggregation_beta cfg)"
    by auto
  then have tt: "t' = t" by simp
  have "ExecRound c n d \<notin> set evs2" using evs2 ws by auto
  with disp evs have inD: "ExecRound c n d \<in> set ?D" by auto
  then obtain i where i: "i \<in> set sel" "c = ref (clients s1 ! i)"
    by (auto simp: ExecRound_in_dispatch)
  from wait_futures_Some[OF ok(2)] have "all_futures_done t' (map (\<lambda>i. done_tick (learner env r (ref (clients s1 ! i)))) sel)"
    by simp
  with i tt have dn: "future_done t (done_tick (learner env r c))"
    by (auto simp: all_futures_done_def list_all_iff)
  let ?pre = "?D @ replicate t' (Sleep 100) @ [Sleep 500]"
  have "fst (exec_round cfg env s r) = ?pre @ Aggregate t cw cs b # ws"
    using evs evs2 same by simp
  moreover have "ExecRound c n d \<in> set ?pre" using inD by simp
  moreover have "length (filter (\<lambda>e. e = Sleep 100) ?pre) = t"
    using tt by (simp add: no_Sleep_in_dispatch)
  ultimately show ?thesis using dn by blast
qed


theorem aggregation_after_all_futures_done_witness:
  "Aggregate 2 [(''client2'', [0]), (''client1'', [0])] [(''client2'', 10), (''client1'', 10)] None
     \<in> set (fst (exec_round ex_cfg (ex_env ex_learners) ex_fed 0))
   \<and> ExecRound ''client1'' 1 True \<in> set (fst (exec_round ex_cfg (ex_env ex_learners) ex_fed 0))
   \<and> done_tick (ex_learners 0 ''client1'') = Some 2
   \<and> future_done 2 (done_tick (learner (ex_env ex_learners) 0 ''client1''))"
proof -
  have evs: "fst (exec_round ex_cfg (ex_env ex_learners) ex_fed 0) =
       [UpdateNNParameters ''client1'' [0], UpdateNNParameters ''client2'' [0],
        ExecRound ''client1'' 1 True, ExecRound ''client2'' 1 True,
        Sleep 100, Sleep 100, Sleep 500,
        Aggregate 2 [(''client2'', [0]), (''client1'', [0])]
          [(''client2'', 10), (''client1'', 10)] None]" by code_simp
  have h1: "Aggregate 2 [(''client2'', [0]), (''client1'', [0])] [(''client2'', 10), (''client1'', 10)] None
     \<in> set (fst (exec_round ex_cfg (ex_env ex_learners) ex_fed 0))"
    unfolding evs by simp
  have h2: "ExecRound ''client1'' 1 True \<in> set (fst (exec_round ex_cfg (ex_env ex_learners) ex_fed 0))"
    unfolding evs by simp
  have h3: "done_tick (ex_learners 0 ''client1'') = Some 2" by code_simp
  from aggregation_after_all_futures_done[OF h1 h2] h1 h2 h3 show ?thesis by simp
qed

lemma close_round_no_stall: "snd (close_round cfg env s r sel t) \<noteq> Stalls s'"
  by (auto simp: close_round_def Let_def split: sum.splits prod.splits)

lemma exec_round_stalls_iff:
  assumes "select_clients cfg env s r = Inr (sel, s1)"
  shows "(\<exists>s'. snd (exec_round cfg env s r) = Stalls s') \<longleftrightarrow>
         (\<exists>i\<in>set sel. done_tick (learner env r (ref (clients s ! i))) = None)"
proof -
  let ?fs = "map (\<lambda>i. done_tick (learner env r (ref (clients s1 ! i)))) sel"
  have cl: "clients s1 = clients s" using select_clients_keeps[OF assms] by simp
  show ?thesis
  proof (cases rule: exec_round_cases[of cfg env s r])
    case (fail e)
    with assms show ?thesis by simp
  next
    case (stall sel' s1')
    with assms have eq: "sel' = sel" "s1' = s1" by auto
    have "\<not> list_all (\<lambda>f. f \<noteq> None) ?fs"
    proof
      assume "list_all (\<lambda>f. f \<noteq> None) ?fs"
      from all_complete_done[OF this] obtain T where "all_futures_done T ?fs" ..
      from wait_futures_returns[OF this, of 0] stall(2) eq show False by simp
    qed
    then have "\<exists>i\<in>set sel. done_tick (learner env r (ref (clients s ! i))) = None"
      using cl by (auto simp: list_all_iff)
    with stall(3) show ?thesis by simp
  next
    case (ok sel' s1' t evs2 out)
    with assms have eq: "sel' = sel" "s1' = s1" by auto
    from wait_futures_Some[OF ok(2)] eq have "all_futures_done t ?fs" by simp
    then have "\<forall>i\<in>set sel. done_tick (learner env r (ref (clients s ! i))) \<noteq> None"
      using cl by (fastforce simp: all_futures_done_def list_all_iff future_done_def split: option.splits)
    moreover have "\<forall>s'. out \<noteq> Stalls s'"
      using close_round_no_stall[of cfg env _ r sel' t] ok(3) by (metis snd_conv)
    ultimately show ?thesis using ok(4) by auto
  qed
qed

text \<open>
  C5. The trace of a round splits in two: the first part holds every
  \<open>update_nn_parameters\<close> message and no training request, the second part holds every
  training request and no \<open>update_nn_parameters\<close> message. Every such message carries
  the parameters the Federator had at the start of the round, and every learner that gets
  a training request was sent them before.
\<close>

theorem broadcast_before_dispatch:
  "\<exists>pre post. fst (exec_round cfg env s r) = pre @ post
     \<and> (\<forall>c n d. ExecRound c n d \<notin> set pre)
     \<and> (\<forall>c w. UpdateNNParameters c w \<notin> set post)
     \<and> (\<forall>c w. UpdateNNParameters c w \<in> set pre \<longrightarrow> w = net s)
     \<and> (\<forall>c n d. ExecRound c n d \<in> set post \<longrightarrow> UpdateNNParameters c (net s) \<in> set pre)"
proof (cases rule: exec_round_cases[of cfg env s r])
  case (fail e)
  then show ?thesis by simp
next
  case (stall sel s1)
  let ?cls = "map (\<lambda>i. clients s1 ! i) sel"
  let ?pre = "(if regular_schedule cfg \<and> r mod 100 = 0 then set_regular_schedule s1 r else [])
      @ map (\<lambda>client. UpdateNNParameters (ref client) (net s1)) ?cls"
  let ?post = "map (\<lambda>client. ExecRound (ref client) (epochs cfg) (fst (start_defense cfg (defense_controller_counter s1)))) ?cls"
  have n: "net s1 = net s" using select_clients_keeps[OF stall(1)] by simp
  have "fst (exec_round cfg env s r) = ?pre @ ?post"
    using stall(3) by (simp add: dispatch_events_split)
  moreover have "\<forall>c n d. ExecRound c n d \<notin> set ?pre"
    by (auto simp: set_regular_schedule_def)
  moreover have "\<forall>c w. UpdateNNParameters c w \<notin> set ?post" by auto
  moreover have "\<forall>c w. UpdateNNParameters c w \<in> set ?pre \<longrightarrow> w = net s"
    using n by (auto simp: set_regular_schedule_def)
  moreover have "\<forall>c n d. ExecRound c n d \<in> set ?post \<longrightarrow> UpdateNNParameters c (net s) \<in> set ?pre"
    using n by auto
  ultimately show ?thesis by blast
next
  case (ok sel s1 t evs2 out)
  let ?cls = "map (\<lambda>i. clients s1 ! i) sel"
  let ?pre = "(if regular_schedule cfg \<and> r mod 100 = 0 then set_regular_schedule s1 r else [])
      @ map (\<lambda>client. UpdateNNParameters (ref client) (net s1)) ?cls"
  let ?disp = "map (\<lambda>client. ExecRound (ref client) (epochs cfg) (fst (start_defense cfg (defense_controller_counter s1)))) ?cls"
  let ?post = "?disp @ replicate t (Sleep 100) @ evs2"
  have n: "net s1 = net s" using select_clients_keeps[OF ok(1)] by simp
  have e2: "\<forall>e\<in>set evs2. (\<forall>c n d. e \<noteq> ExecRound c n d) \<and> (\<forall>c w. e \<noteq> UpdateNNParameters c w)"
    using close_round_events[OF ok(3)] by auto
  have "fst (exec_round cfg env s r) = ?pre @ ?post"
    using ok(4) by (simp add: dispatch_events_split)
  moreover have "\<forall>c n d. ExecRound c n d \<notin> set ?pre"
    by (auto simp: set_regular_schedule_def)
  moreover have "\<forall>c w. UpdateNNParameters c w \<notin> set ?post" using e2 by auto
  moreover have "\<forall>c w. UpdateNNParameters c w \<in> set ?pre \<longrightarrow> w = net s"
    using n by (auto simp: set_regular_schedule_def)
  moreover have "\<forall>c n d. ExecRound c n d \<in> set ?post \<longrightarrow> UpdateNNParameters c (net s) \<in> set ?pre"
    using n e2 by auto
  ultimately show ?thesis by blast
qed


theorem broadcast_before_dispatch_witness:
  "ExecRound ''client1'' 1 True \<in> set (fst (exec_round ex_cfg (ex_env ex_learners) ex_fed 0))
   \<and> net ex_fed = [0]
   \<and> UpdateNNParameters ''client1'' [0] \<in> set (fst (exec_round ex_cfg (ex_env ex_learners) ex_fed 0))"
proof -
  have h: "ExecRound ''client1'' 1 True \<in> set (fst (exec_round ex_cfg (ex_env ex_learners) ex_fed 0))"
    by code_simp
  have n: "net ex_fed = [0]" by code_simp
  from broadcast_before_dispatch[of ex_cfg "ex_env ex_learners" ex_fed 0]
  obtain pre post where pp: "fst (exec_round ex_cfg (ex_env ex_learners) ex_fed 0) = pre @ post"
    and a: "\<forall>c n d. ExecRound c n d \<notin> set pre"
    and b: "\<forall>c n d. ExecRound c n d \<in> set post \<longrightarrow> UpdateNNParameters c (net ex_fed) \<in> set pre"
    by blast
  from h pp a have "ExecRound ''client1'' 1 True \<in> set post" by auto
  with b have "UpdateNNParameters ''client1'' (net ex_fed) \<in> set pre" by blast
  with pp n have "UpdateNNParameters ''client1'' [0] \<in> set (fst (exec_round ex_cfg (ex_env ex_learners) ex_fed 0))"
    by simp
  with h n show ?thesis by simp
qed

lemma remove_nth_distinct:
  assumes "distinct pool" "i < length pool"
  shows "distinct (take i pool @ drop (Suc i) pool) \<and> pool ! i \<notin> set (take i pool @ drop (Suc i) pool)"
proof -
  have "pool = take i pool @ pool ! i # drop (Suc i) pool"
    using assms(2) by (rule id_take_nth_drop)
  with assms(1) have "distinct (take i pool @ pool ! i # drop (Suc i) pool)" by simp
  then show ?thesis by auto
qed

lemma remove_nth_subset: "set (take i pool @ drop (Suc i) pool) \<subseteq> set pool"
  by (auto dest: in_set_takeD in_set_dropD)

lemma sample_length:
  "k \<le> length pool \<Longrightarrow> length (fst (sample nxt g pool k)) = k"
proof (induction k arbitrary: g pool)
  case 0
  then show ?case by simp
next
  case (Suc k)
  then have ne: "pool \<noteq> []" by auto
  obtain x g' where x: "nxt g = (x, g')" by (cases "nxt g")
  let ?i = "x mod length pool"
  have "?i < length pool" using ne by simp
  then have "k \<le> length (take ?i pool @ drop (Suc ?i) pool)" using Suc(2) by simp
  from Suc(1)[OF this, of g'] show ?case using ne x
    by (simp add: Let_def case_prod_beta)
qed

lemma sample_subset:
  "set (fst (sample nxt g pool k)) \<subseteq> set pool"
proof (induction k arbitrary: g pool)
  case 0
  then show ?case by simp
next
  case (Suc k)
  show ?case
  proof (cases "pool = []")
    case True
    then show ?thesis by simp
  next
    case False
    obtain x g' where x: "nxt g = (x, g')" by (cases "nxt g")
    let ?i = "x mod length pool"
    have i: "?i < length pool" using False by simp
    have "set (fst (sample nxt g' (take ?i pool @ drop (Suc ?i) pool) k)) \<subseteq> set pool"
      using Suc[of g' "take ?i pool @ drop (Suc ?i) pool"] remove_nth_subset[of ?i pool] by blast
    then show ?thesis using False x i
      by (simp add: Let_def case_prod_beta)
  qed
qed

lemma sample_distinct:
  "distinct pool \<Longrightarrow> distinct (fst (sample nxt g pool k))"
proof (induction k arbitrary: g pool)
  case 0
  then show ?case by simp
next
  case (Suc k)
  show ?case
  proof (cases "pool = []")
    case True
    then show ?thesis by simp
  next
    case False
    obtain x g' where x: "nxt g = (x, g')" by (cases "nxt g")
    let ?i = "x mod length pool"
    let ?pool' = "take ?i pool @ drop (Suc ?i) pool"
    have i: "?i < length pool" using False by simp
    from remove_nth_distinct[OF Suc(2) i]
    have d: "distinct ?pool'" and n: "pool ! ?i \<notin> set ?pool'" by auto
    have "pool ! ?i \<notin> set (fst (sample nxt g' ?pool' k))"
      using n sample_subset[of nxt g' ?pool' k] by blast
    moreover have "distinct (fst (sample nxt g' ?pool' k))" using Suc(1)[OF d] .
    ultimately show ?thesis using False x
      by (simp add: Let_def case_prod_beta)
  qed
qed

lemma distinct_positions_names:
  assumes "distinct (map f xs)" "distinct sel" "set sel \<subseteq> {..<length xs}"
  shows "distinct (map (\<lambda>i. f (xs ! i)) sel)"
proof -
  have "inj_on (\<lambda>i. f (xs ! i)) (set sel)"
  proof (rule inj_onI)
    fix i j assume ij: "i \<in> set sel" "j \<in> set sel" "f (xs ! i) = f (xs ! j)"
    then have "i < length xs" "j < length xs" using assms(3) by auto
    then show "i = j"
      using nth_eq_iff_index_eq[OF assms(1), of i j] ij(3) by simp
  qed
  with assms(2) show ?thesis by (simp add: distinct_map)
qed

text \<open>
  C4. When the configured selection size is at most the number of registered clients,
  the selection of a round succeeds and returns exactly that many positions of the
  registry, all different (so the selected learners' names are different when the
  registry's names are); and a Federator with the same registry, whatever the rest of its
  state and the state of the generator, selects the same learners in the same round.
\<close>

theorem selection_exact_and_reproducible:
  assumes "clients_per_round cfg \<le> length (clients s)"
  shows "\<exists>sel s1. select_clients cfg env s r = Inr (sel, s1)
           \<and> length sel = clients_per_round cfg
           \<and> distinct sel
           \<and> set sel \<subseteq> {..<length (clients s)}
           \<and> (distinct (map name (clients s)) \<longrightarrow> distinct (map (\<lambda>i. name (clients s ! i)) sel))
           \<and> (\<forall>s'. clients s' = clients s \<longrightarrow> (\<exists>s1'. select_clients cfg env s' r = Inr (sel, s1')))"
proof -
  let ?k = "clients_per_round cfg"
  let ?n = "length (clients s)"
  let ?p = "sample (np_next env) (np_seed env r) [0..<?n] ?k"
  have sel: "\<And>s'. clients s' = clients s \<Longrightarrow>
      select_clients cfg env s' r = Inr (fst ?p, s'\<lparr>np_random := snd ?p\<rparr>)"
    using assms by (simp add: select_clients_def random_selection_def Let_def case_prod_beta)
  have l: "length (fst ?p) = ?k" using assms by (simp add: sample_length)
  have d: "distinct (fst ?p)" by (simp add: sample_distinct)
  have sub: "set (fst ?p) \<subseteq> {..<?n}" using sample_subset[of "np_next env" "np_seed env r" "[0..<?n]" ?k] by auto
  have nm: "distinct (map name (clients s)) \<longrightarrow> distinct (map (\<lambda>i. name (clients s ! i)) (fst ?p))"
    using distinct_positions_names[OF _ d sub] by blast
  show ?thesis using sel[of s] sel l d sub nm by blast
qed

theorem selection_exact_and_reproducible_witness:
  "clients_per_round ex_cfg \<le> length (clients ex_fed_five)
   \<and> (\<exists>s1. select_clients ex_cfg (ex_env ex_learners) ex_fed_five 3 = Inr ([3, 0], s1))
   \<and> (\<exists>s1. select_clients ex_cfg (ex_env ex_learners) (ex_fed_five\<lparr>np_random := 99\<rparr>) 3 = Inr ([3, 0], s1))"
proof -
  have h: "clients_per_round ex_cfg \<le> length (clients ex_fed_five)" by code_simp
  have c: "clients (ex_fed_five\<lparr>np_random := 99\<rparr>) = clients ex_fed_five" by simp
  have v: "map_sum id fst (select_clients ex_cfg (ex_env ex_learners) ex_fed_five 3) = Inr [3, 0]"
    by code_simp
  from selection_exact_and_reproducible[OF h, of "ex_env ex_learners" 3]
  obtain sel s1 where s: "select_clients ex_cfg (ex_env ex_learners) ex_fed_five 3 = Inr (sel, s1)"
    and r: "\<forall>s'. clients s' = clients ex_fed_five \<longrightarrow>
              (\<exists>s1'. select_clients ex_cfg (ex_env ex_learners) s' 3 = Inr (sel, s1'))"
    by blast
  from s v have "sel = [3, 0]" by simp
  with s r c h show ?thesis by blast
qed

lemma map_of_overwrite:
  "map_of (foldl (\<lambda>tab c. AList.update (name c) v tab) al victims) n =
     (if n \<in> name ` set victims then Some v else map_of al n)"
  by (induction victims arbitrary: al) (auto simp: update_conv')

lemma keys_overwrite:
  "name ` set victims \<subseteq> fst ` set al \<Longrightarrow>
     map fst (foldl (\<lambda>tab c. AList.update (name c) v tab) al victims) = map fst al"
proof (induction victims arbitrary: al)
  case Nil
  then show ?case by simp
next
  case (Cons c victims)
  let ?al = "AList.update (name c) v al"
  from Cons.prems have k: "name c \<in> fst ` set al" by simp
  then have keys: "map fst ?al = map fst al" by (simp add: update_keys)
  then have "fst ` set ?al = fst ` set al" by (metis set_map)
  with Cons.prems have "name ` set victims \<subseteq> fst ` set ?al" by simp
  from Cons.IH[OF this] keys show ?case by simp
qed

lemma substitute_result:
  assumes "2 \<le> boost" and "map_of cw m = Some w" and "map_of cs m = Some z"
    and "m \<notin> name ` set (filter (\<lambda>c. \<not> is_mal c) cls)"
  shows "substitute is_mal m cls boost cw cs =
           Inr (foldl (\<lambda>tab c. AList.update (name c) w tab) cw
                  (take (nat (boost - 1)) (filter (\<lambda>c. \<not> is_mal c) cls)),
                foldl (\<lambda>tab c. AList.update (name c) z tab) cs
                  (take (nat (boost - 1)) (filter (\<lambda>c. \<not> is_mal c) cls)))"
  using assms
proof (induction cls arbitrary: boost cw cs)
  case Nil
  then show ?case by simp
next
  case (Cons client rest)
  show ?case
  proof (cases "is_mal client")
    case True
    with Cons show ?thesis by simp
  next
    case False
    with Cons.prems have ne: "name client \<noteq> m" by auto
    have n: "nat (boost - 1) = Suc (nat (boost - 2))" using Cons.prems(1) by simp
    show ?thesis
    proof (cases "boost - 1 = 1")
      case True
      then have "nat (boost - 2) = 0" by simp
      with False True n Cons.prems show ?thesis by simp
    next
      case b: False
      let ?cw = "AList.update (name client) w cw"
      let ?cs = "AList.update (name client) z cs"
      have "2 \<le> boost - 1" using b Cons.prems(1) by simp
      moreover have "map_of ?cw m = Some w" "map_of ?cs m = Some z"
        using ne Cons.prems by (simp_all add: update_conv')
      moreover have "m \<notin> name ` set (filter (\<lambda>c. \<not> is_mal c) rest)"
        using Cons.prems(4) by auto
      ultimately have "substitute is_mal m rest (boost - 1) ?cw ?cs =
           Inr (foldl (\<lambda>tab c. AList.update (name c) w tab) ?cw
                  (take (nat (boost - 1 - 1)) (filter (\<lambda>c. \<not> is_mal c) rest)),
                foldl (\<lambda>tab c. AList.update (name c) z tab) ?cs
                  (take (nat (boost - 1 - 1)) (filter (\<lambda>c. \<not> is_mal c) rest)))"
        by (rule Cons.IH)
      moreover have "boost - 1 - 1 = boost - 2" by simp
      ultimately show ?thesis using False b n Cons.prems by simp
    qed
  qed
qed

lemma last_flagged:
  assumes "\<exists>c\<in>set sel. is_mal c"
  shows "filter is_mal sel \<noteq> [] \<and> last (filter is_mal sel) \<in> set sel \<and> is_mal (last (filter is_mal sel))"
proof -
  from assms have ne: "filter is_mal sel \<noteq> []" by (auto simp: filter_empty_conv)
  then have "last (filter is_mal sel) \<in> set (filter is_mal sel)" by (rule last_in_set)
  with ne show ?thesis by auto
qed

text \<open>
  The adversarial-weighting pass on its own, over selected clients \<open>sel\<close> with different
  names, all present in the two tables. When the boost is at most 1 or no selected
  client is flagged, the tables are returned unchanged. When the boost exceeds 1 and a
  selected client is flagged, the pass succeeds; the clients overwritten are the first
  \<open>min (boost - 1) (number of benign selected clients)\<close> benign ones, their entries in
  both tables become the entries of the last flagged client, every other entry is
  unchanged, and no entry is added.
\<close>

lemma boost_pass_substitution:
  assumes dist: "distinct (map name sel)"
    and keys_w: "name ` set sel \<subseteq> fst ` set cw"
    and keys_s: "name ` set sel \<subseteq> fst ` set cs"
    and benign: "benign = filter (\<lambda>c. \<not> is_mal c) sel"
    and victims: "victims = take (nat (mal_boost cfg - 1)) benign"
    and source: "m = name (last (filter is_mal sel))"
  shows "(mal_boost cfg \<le> 1 \<or> \<not> (\<exists>c\<in>set sel. is_mal c) \<longrightarrow>
            boost_pass cfg is_mal sel cw cs = Inr (cw, cs))
       \<and> (1 < mal_boost cfg \<and> (\<exists>c\<in>set sel. is_mal c) \<longrightarrow>
            (\<exists>cw' cs' w z.
               boost_pass cfg is_mal sel cw cs = Inr (cw', cs')
               \<and> map_of cw m = Some w \<and> map_of cs m = Some z
               \<and> length victims = min (nat (mal_boost cfg - 1)) (length benign)
               \<and> distinct (map name victims)
               \<and> (\<forall>n. map_of cw' n = (if n \<in> name ` set victims then Some w else map_of cw n))
               \<and> (\<forall>n. map_of cs' n = (if n \<in> name ` set victims then Some z else map_of cs n))
               \<and> map fst cw' = map fst cw \<and> map fst cs' = map fst cs))"
proof (intro conjI impI)
  assume "mal_boost cfg \<le> 1 \<or> \<not> (\<exists>c\<in>set sel. is_mal c)"
  then show "boost_pass cfg is_mal sel cw cs = Inr (cw, cs)"
    by (auto simp: boost_pass_def Let_def filter_empty_conv)
next
  assume a: "1 < mal_boost cfg \<and> (\<exists>c\<in>set sel. is_mal c)"
  then have fl: "filter is_mal sel \<noteq> []" "last (filter is_mal sel) \<in> set sel"
      "is_mal (last (filter is_mal sel))"
    using last_flagged[of sel is_mal] by auto
  have msel: "m \<in> name ` set sel" using fl(2) source by simp
  from msel keys_w obtain w where w: "map_of cw m = Some w"
    by (metis (no_types, opaque_lifting) subsetD map_of_eq_None_iff not_Some_eq)
  from msel keys_s obtain z where z: "map_of cs m = Some z"
    by (metis (no_types, opaque_lifting) subsetD map_of_eq_None_iff not_Some_eq)
  have notben: "m \<notin> name ` set benign"
  proof
    assume "m \<in> name ` set benign"
    then obtain c where c: "c \<in> set sel" "\<not> is_mal c" "name c = m" using benign by auto
    with fl(2,3) source dist have "c = last (filter is_mal sel)"
      by (metis distinct_map inj_on_eq_iff)
    with c(2) fl(3) show False by simp
  qed
  have vsub: "set victims \<subseteq> set sel" using victims benign by (auto dest: in_set_takeD)
  have pass: "boost_pass cfg is_mal sel cw cs =
      Inr (foldl (\<lambda>tab c. AList.update (name c) w tab) cw victims,
           foldl (\<lambda>tab c. AList.update (name c) z tab) cs victims)"
    using a fl(1) substitute_result[of "mal_boost cfg" cw m w cs z is_mal sel] w z notben
    by (simp add: boost_pass_def Let_def source benign victims last_map)
  have "distinct (map name benign)" using dist benign by (simp add: distinct_map_filter)
  then have "distinct (take (nat (mal_boost cfg - 1)) (map name benign))" by (rule distinct_take)
  then have dv: "distinct (map name victims)" by (simp add: victims take_map)
  have "length victims = min (nat (mal_boost cfg - 1)) (length benign)"
    using victims by simp
  moreover have "map fst (foldl (\<lambda>tab c. AList.update (name c) w tab) cw victims) = map fst cw"
    using vsub keys_w by (intro keys_overwrite) auto
  moreover have "map fst (foldl (\<lambda>tab c. AList.update (name c) z tab) cs victims) = map fst cs"
    using vsub keys_s by (intro keys_overwrite) auto
  ultimately show "\<exists>cw' cs' w z.
               boost_pass cfg is_mal sel cw cs = Inr (cw', cs')
               \<and> map_of cw m = Some w \<and> map_of cs m = Some z
               \<and> length victims = min (nat (mal_boost cfg - 1)) (length benign)
               \<and> distinct (map name victims)
               \<and> (\<forall>n. map_of cw' n = (if n \<in> name ` set victims then Some w else map_of cw n))
               \<and> (\<forall>n. map_of cs' n = (if n \<in> name ` set victims then Some z else map_of cs n))
               \<and> map fst cw' = map fst cw \<and> map fst cs' = map fst cs"
    using pass w z dv by (auto simp: map_of_overwrite)
qed


lemma boost_pass_example:
  "distinct (map name ex_five)
   \<and> mal_boost ex_cfg_boost = 3
   \<and> filter ex_flagged ex_five = [ex_client ''client3'']
   \<and> length (take (nat (mal_boost ex_cfg_boost - 1)) (filter (\<lambda>c. \<not> ex_flagged c) ex_five)) = 2
   \<and> boost_pass ex_cfg_boost ex_flagged ex_five ex_weights ex_sizes =
       Inr ([(''client1'', [3]), (''client2'', [3]), (''client3'', [3]),
             (''client4'', [4]), (''client5'', [5])],
            [(''client1'', 30), (''client2'', 30), (''client3'', 30),
             (''client4'', 40), (''client5'', 50)])"
proof -
  have h1: "distinct (map name ex_five)" by code_simp
  have h2: "name ` set ex_five \<subseteq> fst ` set ex_weights"
    by (simp add: ex_five_def ex_weights_def ex_client_def)
  have h3: "name ` set ex_five \<subseteq> fst ` set ex_sizes"
    by (simp add: ex_five_def ex_sizes_def ex_client_def)
  have b: "mal_boost ex_cfg_boost = 3" by code_simp
  have f: "filter ex_flagged ex_five = [ex_client ''client3'']" by code_simp
  have fl: "1 < mal_boost ex_cfg_boost \<and> (\<exists>c\<in>set ex_five. ex_flagged c)"
    by (simp add: ex_five_def ex_flagged_def ex_client_def ex_cfg_boost_def)
  have n: "length (filter (\<lambda>c. \<not> ex_flagged c) ex_five) = 4" by code_simp
  have v: "boost_pass ex_cfg_boost ex_flagged ex_five ex_weights ex_sizes =
       Inr ([(''client1'', [3]), (''client2'', [3]), (''client3'', [3]),
             (''client4'', [4]), (''client5'', [5])],
            [(''client1'', 30), (''client2'', 30), (''client3'', 30),
             (''client4'', 40), (''client5'', 50)])" by code_simp
  from boost_pass_substitution[OF h1 h2 h3 refl refl refl, of ex_cfg_boost ex_flagged] fl
  have "length (take (nat (mal_boost ex_cfg_boost - 1)) (filter (\<lambda>c. \<not> ex_flagged c) ex_five))
          = min (nat (mal_boost ex_cfg_boost - 1)) (length (filter (\<lambda>c. \<not> ex_flagged c) ex_five))"
    by blast
  with b n have "length (take (nat (mal_boost ex_cfg_boost - 1)) (filter (\<lambda>c. \<not> ex_flagged c) ex_five)) = 2"
    by simp
  with h1 b f v show ?thesis by simp
qed

lemma exec_round_boost_example:
  "fst (exec_round ex_cfg_boost (ex_env ex_learners_five) ex_fed_five 0) =
     [UpdateNNParameters ''client1'' [0], UpdateNNParameters ''client3'' [0],
      UpdateNNParameters ''client5'' [0], UpdateNNParameters ''client4'' [0],
      UpdateNNParameters ''client2'' [0], ExecRound ''client1'' 1 True,
      ExecRound ''client3'' 1 True, ExecRound ''client5'' 1 True,
      ExecRound ''client4'' 1 True, ExecRound ''client2'' 1 True, Sleep 500,
      Aggregate 0
        [(''client1'', [3]), (''client3'', [3]), (''client5'', [3]),
         (''client4'', [4]), (''client2'', [2])]
        [(''client1'', 10), (''client3'', 10), (''client5'', 10),
         (''client4'', 10), (''client2'', 10)]
        None]"
  by code_simp

lemma hessian_mean:
  assumes "benign = filter (\<lambda>c. \<not> status (learner env r (ref c))) sel"
    and "entries = concat (map (\<lambda>c. hessian (learner env r (ref c))) benign)"
  shows "client_aggregate_hessian env r sel =
           (if entries = [] then Inl ZeroDivisionError
            else Inr (sum_list (map fst entries) / real (length entries),
                      sum_list (map snd entries) / real (length entries)))"
  using assms by (auto simp: client_aggregate_hessian_def Let_def)

lemma regular_loss_mean:
  assumes "benign = filter (\<lambda>c. \<not> status (learner env r (ref c))) sel"
  shows "client_aggregate_regular_loss env r sel =
           (if benign = [] then Inl ZeroDivisionError
            else Inr (sum_list (map (\<lambda>c. regular_loss (learner env r (ref c))) benign)
                        / real (length benign)))"
  using assms by (simp add: client_aggregate_regular_loss_def Let_def)

lemma close_round_records:
  assumes "close_round cfg env s r sel t = (evs, out)"
  shows "case out of
           Returns s' \<Rightarrow>
             records s' = records s @
               [\<lparr>num_selected_clients = length sel, round_id = r,
                 round_duration = end_time env r - start_time env r,
                 test_loss = fst (snd (test env (net s'))),
                 test_accuracy = fst (test env (net s')),
                 mal_loss = fst (snd (mal_test env (net s'))),
                 mal_accuracy = fst (mal_test env (net s')),
                 mal_confidence = snd (snd (mal_test env (net s'))),
                 confusion_mat = snd (snd (test env (net s')))\<rparr>]
         | Raises e s' \<Rightarrow> records s' = records s
         | Stalls s' \<Rightarrow> records s' = records s"
  using assms
  by (auto simp: close_round_def Let_def defense_controller_def
      split: sum.splits prod.splits if_splits)

lemma close_round_all_adversarial:
  assumes cr: "close_round cfg env s r sel t = (evs, out)"
    and adv: "\<forall>i\<in>set sel. status (learner env r (ref (clients s ! i)))"
    and agg: "Aggregate t' cw cs b \<in> set evs"
    and ok: "aggregation_method env cw cs b = Inr w"
  shows "\<exists>s'. out = Raises ZeroDivisionError s' \<and> records s' = records s"
proof -
  have "filter (\<lambda>c. \<not> status (learner env r (ref c))) (map (\<lambda>i. clients s ! i) sel) = []"
    using adv by (auto simp: filter_empty_conv)
  then have h: "client_aggregate_hessian env r (map (\<lambda>i. clients s ! i) sel) = Inl ZeroDivisionError"
    by (simp add: client_aggregate_hessian_def Let_def)
  show ?thesis using cr agg ok h
    by (auto simp: close_round_def Let_def split: sum.splits prod.splits if_splits)
qed


lemma exec_round_all_adversarial:
  assumes sel: "select_clients cfg env s r = Inr (sel, s1)"
    and adv: "\<forall>i\<in>set sel. status (learner env r (ref (clients s ! i)))"
    and agg: "Aggregate t cw cs b \<in> set (fst (exec_round cfg env s r))"
    and ok: "aggregation_method env cw cs b = Inr w"
  shows "\<exists>s'. snd (exec_round cfg env s r) = Raises ZeroDivisionError s' \<and> records s' = records s"
proof (cases rule: exec_round_cases[of cfg env s r])
  case (fail e)
  with agg show ?thesis by simp
next
  case (stall sel' s1')
  with agg show ?thesis by (simp add: no_Aggregate_in_dispatch)
next
  case (ok sel' s1' t' evs2 out)
  with sel have eq: "sel' = sel" "s1' = s1" by auto
  let ?s2 = "s1\<lparr>defense_controller_counter :=
                  snd (start_defense cfg (defense_controller_counter s1))\<rparr>"
  have keep: "clients ?s2 = clients s" "records ?s2 = records s"
    using select_clients_keeps[OF sel] by simp_all
  have in2: "Aggregate t cw cs b \<in> set evs2"
    using agg ok(4) by (auto simp: no_Aggregate_in_dispatch)
  have cr: "close_round cfg env ?s2 r sel t' = (evs2, out)" using ok(3) eq by simp
  have adv': "\<forall>i\<in>set sel. status (learner env r (ref (clients ?s2 ! i)))"
    using adv keep by simp
  from close_round_all_adversarial[OF cr adv' in2 \<open>aggregation_method env cw cs b = Inr w\<close>]
  show ?thesis using ok(4) keep by simp
qed

text \<open>
  C9 (amended). For the clients selected in a round: the Hessian means are the sums of
  the drift entries the benign selected learners report, divided by the number of those
  entries, and \<open>client_aggregate_hessian\<close> raises a division by zero exactly when there
  is no such entry; the regular-loss mean is the sum over the benign selected learners
  divided by their number, defined when there is at least one. When every selected
  learner is flagged, a round that got as far as a successful aggregation raises
  \<open>ZeroDivisionError\<close> and appends no record.
\<close>

theorem benign_diagnostics:
  assumes sel: "select_clients cfg env s r = Inr (sel, s1)"
    and selected: "selected = map (\<lambda>i. clients s ! i) sel"
    and benign: "benign = filter (\<lambda>c. \<not> status (learner env r (ref c))) selected"
    and entries: "entries = concat (map (\<lambda>c. hessian (learner env r (ref c))) benign)"
  shows "(entries \<noteq> [] \<longrightarrow>
            client_aggregate_hessian env r selected =
              Inr (sum_list (map fst entries) / real (length entries),
                   sum_list (map snd entries) / real (length entries)))
       \<and> (entries = [] \<longrightarrow> client_aggregate_hessian env r selected = Inl ZeroDivisionError)
       \<and> (benign \<noteq> [] \<longrightarrow>
            client_aggregate_regular_loss env r selected =
              Inr (sum_list (map (\<lambda>c. regular_loss (learner env r (ref c))) benign)
                     / real (length benign)))
       \<and> (benign = [] \<longrightarrow>
            (\<forall>t cw cs b w. Aggregate t cw cs b \<in> set (fst (exec_round cfg env s r))
               \<longrightarrow> aggregation_method env cw cs b = Inr w
               \<longrightarrow> (\<exists>s'. snd (exec_round cfg env s r) = Raises ZeroDivisionError s'
                          \<and> records s' = records s)))"
proof -
  have "benign = [] \<Longrightarrow> \<forall>i\<in>set sel. status (learner env r (ref (clients s ! i)))"
    using benign selected by (auto simp: filter_empty_conv)
  then show ?thesis
    using hessian_mean[OF benign entries] regular_loss_mean[OF benign]
      exec_round_all_adversarial[OF sel]
    by (auto simp del: filter.simps)
qed


theorem benign_diagnostics_witness:
  "select_clients ex_cfg (ex_env ex_learners) ex_fed 0 = Inr ([0, 1], ex_fed\<lparr>np_random := 2\<rparr>)
   \<and> filter (\<lambda>c. \<not> status (learner (ex_env ex_learners) 0 (ref c))) (clients ex_fed)
       = [ex_client ''client1'']
   \<and> client_aggregate_hessian (ex_env ex_learners) 0 (clients ex_fed) = Inr (1, 2)
   \<and> client_aggregate_regular_loss (ex_env ex_learners) 0 (clients ex_fed) = Inr 1"
proof -
  have s: "select_clients ex_cfg (ex_env ex_learners) ex_fed 0 = Inr ([0, 1], ex_fed\<lparr>np_random := 2\<rparr>)"
    by code_simp
  have c: "map (\<lambda>i. clients ex_fed ! i) [0, 1] = clients ex_fed" by code_simp
  have b: "filter (\<lambda>c. \<not> status (learner (ex_env ex_learners) 0 (ref c))) (clients ex_fed)
       = [ex_client ''client1'']" by code_simp
  have e: "concat (map (\<lambda>c. hessian (learner (ex_env ex_learners) 0 (ref c))) [ex_client ''client1''])
       = [(1, 2)]" by code_simp
  from benign_diagnostics[OF s c[symmetric] b[symmetric] e[symmetric]]
  have "client_aggregate_hessian (ex_env ex_learners) 0 (clients ex_fed) = Inr (1, 2)"
    and "client_aggregate_regular_loss (ex_env ex_learners) 0 (clients ex_fed) = Inr 1"
    by (simp_all add: ex_env_def ex_learners_def ex_learner_def ex_client_def)
  with s b show ?thesis by simp
qed

text \<open>
  C9 as stated fails: one selected learner, benign, whose Hessian list is empty. A benign
  learner is selected, yet the Hessian mean divides by zero and the round raises.
\<close>

theorem benign_without_hessian_counterexample:
  "filter (\<lambda>c. \<not> status (learner (ex_env ex_learners_no_hessian) 0 (ref c))) (clients ex_fed_one)
     = [ex_client ''client1'']
   \<and> client_aggregate_hessian (ex_env ex_learners_no_hessian) 0 (clients ex_fed_one)
       = Inl ZeroDivisionError
   \<and> outcome_error (snd (exec_round ex_cfg_defense (ex_env ex_learners_no_hessian) ex_fed_one 0))
       = Some ZeroDivisionError"
  by code_simp

lemma exec_round_all_flagged_example:
  "outcome_error (snd (exec_round ex_cfg (ex_env ex_learners_flagged) ex_fed 0)) = Some ZeroDivisionError
   \<and> records (outcome_state (snd (exec_round ex_cfg (ex_env ex_learners_flagged) ex_fed 0))) = []
   \<and> fst (exec_round ex_cfg (ex_env ex_learners_flagged) ex_fed 0) =
       [UpdateNNParameters ''client1'' [0], UpdateNNParameters ''client2'' [0],
        ExecRound ''client1'' 1 True, ExecRound ''client2'' 1 True,
        Sleep 100, Sleep 100, Sleep 500,
        Aggregate 2 [(''client2'', [0]), (''client1'', [0])]
          [(''client2'', 10), (''client1'', 10)] None]"
  by code_simp

lemma select_clients_length:
  assumes "select_clients cfg env s r = Inr (sel, s1)"
  shows "length sel = clients_per_round cfg"
proof -
  from assms have k: "clients_per_round cfg \<le> length (clients s)"
    by (auto simp: select_clients_def random_selection_def Let_def split: if_splits sum.splits)
  with assms have "sel = fst (sample (np_next env) (np_seed env r) [0..<length (clients s)] (clients_per_round cfg))"
    by (auto simp: select_clients_def random_selection_def Let_def case_prod_beta split: if_splits sum.splits)
  with k show ?thesis by (simp add: sample_length)
qed

text \<open>
  C6 (amended). A round that returns appends exactly one record to the Federator's
  ledger, holding the number of selected clients, the round index, the duration, the loss
  and accuracy of the clean evaluation of the new network, the loss, accuracy and
  confidence of the adversarial evaluation, and the clean confusion matrix. A round that
  raises or stalls appends none.
\<close>

theorem round_record:
  "(\<forall>s'. snd (exec_round cfg env s r) = Returns s' \<longrightarrow>
      records s' = records s @
        [\<lparr>num_selected_clients = clients_per_round cfg, round_id = r,
          round_duration = end_time env r - start_time env r,
          test_loss = fst (snd (test env (net s'))),
          test_accuracy = fst (test env (net s')),
          mal_loss = fst (snd (mal_test env (net s'))),
          mal_accuracy = fst (mal_test env (net s')),
          mal_confidence = snd (snd (mal_test env (net s'))),
          confusion_mat = snd (snd (test env (net s')))\<rparr>])
   \<and> (\<forall>s'. (\<exists>e. snd (exec_round cfg env s r) = Raises e s') \<or> snd (exec_round cfg env s r) = Stalls s'
         \<longrightarrow> records s' = records s)"
proof (cases rule: exec_round_cases[of cfg env s r])
  case (fail e)
  then show ?thesis by auto
next
  case (stall sel s1)
  then show ?thesis using select_clients_keeps[OF stall(1)] by auto
next
  case (ok sel s1 t evs2 out)
  have l: "length sel = clients_per_round cfg" using ok(1) by (rule select_clients_length)
  from close_round_records[OF ok(3)] l select_clients_keeps[OF ok(1)] ok(4)
  show ?thesis by (cases out) auto
qed


theorem round_record_witness:
  "outcome_error (snd (exec_round ex_cfg_wandb (ex_env ex_learners) ex_fed 0)) = None
   \<and> records (outcome_state (snd (exec_round ex_cfg_wandb (ex_env ex_learners) ex_fed 0))) =
       [\<lparr>num_selected_clients = 2, round_id = 0, round_duration = 1,
         test_loss = 1, test_accuracy = 90, mal_loss = 0,
         mal_accuracy = 0, mal_confidence = 0, confusion_mat = []\<rparr>]"
proof -
  obtain s' where r: "snd (exec_round ex_cfg_wandb (ex_env ex_learners) ex_fed 0) = Returns s'"
    and n: "net s' = [0]"
  proof -
    have "snd (exec_round ex_cfg_wandb (ex_env ex_learners) ex_fed 0) =
            Returns (outcome_state (snd (exec_round ex_cfg_wandb (ex_env ex_learners) ex_fed 0)))
          \<and> net (outcome_state (snd (exec_round ex_cfg_wandb (ex_env ex_learners) ex_fed 0))) = [0]"
      by code_simp
    then show ?thesis using that by blast
  qed
  from round_record[of ex_cfg_wandb "ex_env ex_learners" ex_fed 0] r
  have "records s' = records ex_fed @
        [\<lparr>num_selected_clients = clients_per_round ex_cfg_wandb, round_id = 0,
          round_duration = end_time (ex_env ex_learners) 0 - start_time (ex_env ex_learners) 0,
          test_loss = fst (snd (test (ex_env ex_learners) (net s'))),
          test_accuracy = fst (test (ex_env ex_learners) (net s')),
          mal_loss = fst (snd (mal_test (ex_env ex_learners) (net s'))),
          mal_accuracy = fst (mal_test (ex_env ex_learners) (net s')),
          mal_confidence = snd (snd (mal_test (ex_env ex_learners) (net s'))),
          confusion_mat = snd (snd (test (ex_env ex_learners) (net s')))\<rparr>]"
    by blast
  then have "records s' =
       [\<lparr>num_selected_clients = 2, round_id = 0, round_duration = 1,
         test_loss = 1, test_accuracy = 90, mal_loss = 0,
         mal_accuracy = 0, mal_confidence = 0, confusion_mat = []\<rparr>]"
    using n by (simp add: ex_cfg_wandb_def ex_cfg_def ex_env_def ex_fed_def)
  with r show ?thesis by (simp add: outcome_error_def outcome_state_def)
qed

text \<open>
  C6 as stated fails: the same round in two worlds that differ in the number of flagged
  selected learners (1 and 0), in the Hessian means ((1, 2) and (3, 4)) and in the mean
  benign regular loss (1 and 5) appends the same record. Those values go to
  \<open>wandb.log\<close> only.
\<close>

theorem record_misses_diagnostics_counterexample:
  "records (outcome_state (snd (exec_round ex_cfg_wandb (ex_env ex_learners) ex_fed 0))) =
     records (outcome_state (snd (exec_round ex_cfg_wandb (ex_env ex_learners_benign) ex_fed 0)))
   \<and> length (filter (\<lambda>c. status (learner (ex_env ex_learners) 0 (ref c))) (clients ex_fed)) = 1
   \<and> length (filter (\<lambda>c. status (learner (ex_env ex_learners_benign) 0 (ref c))) (clients ex_fed)) = 0
   \<and> client_aggregate_hessian (ex_env ex_learners) 0 (clients ex_fed) = Inr (1, 2)
   \<and> client_aggregate_hessian (ex_env ex_learners_benign) 0 (clients ex_fed) = Inr (3, 4)
   \<and> client_aggregate_regular_loss (ex_env ex_learners) 0 (clients ex_fed) = Inr 1
   \<and> client_aggregate_regular_loss (ex_env ex_learners_benign) 0 (clients ex_fed) = Inr 5
   \<and> drop 8 (fst (exec_round ex_cfg_wandb (ex_env ex_learners) ex_fed 0)) =
       [WandbLog [(''Federator/Accuracy'', 90), (''Federator/Loss'', 1),
                  (''Federator/Malicious number this round'', 1)] 0,
        WandbLog [(''Malicious/Accuracy'', 0), (''Malicious/Loss'', 0),
                  (''Malicious/Confidence'', 0)] 0,
        WandbLog [(''round'', 0)] 0,
        WandbLog [(''Federator/Changed percentage'', 1),
                  (''Federator/Changed magnitude'', 2)] 0,
        WandbLog [(''Federator/Regular loss'', 1)] 0]"
  by code_simp

lemma training_cb_names:
  "map name (snd (snd (training_cb cfg env r i tabs))) = map name (snd (snd tabs))"
proof -
  obtain cw cs cls where t: "tabs = (cw, cs, cls)" by (cases tabs)
  show ?thesis
  proof (cases "i < length cls")
    case True
    then have "(map name cls)[i := name (cls ! i)] = map name cls"
      by (simp add: list_update_same_conv)
    then show ?thesis using t by (simp add: training_cb_def Let_def map_update)
  next
    case False
    then have "length cls \<le> i" by simp
    then have "\<And>x. cls[i := x] = cls" by (rule list_update_beyond)
    then show ?thesis using t by (simp add: training_cb_def Let_def)
  qed
qed

lemma collect_names:
  "map name (snd (snd (foldl (\<lambda>tabs i. training_cb cfg env r i tabs) tabs order)))
     = map name (snd (snd tabs))"
  by (induction order arbitrary: tabs) (simp_all add: training_cb_names)

lemma close_round_names:
  "map name (clients (outcome_state (snd (close_round cfg env s r sel t)))) = map name (clients s)"
proof -
  obtain cw cs cls where c: "collect cfg env r (clients s) sel = (cw, cs, cls)"
    by (cases "collect cfg env r (clients s) sel")
  have "map name cls = map name (clients s)"
    using collect_names[of cfg env r "([], [], clients s)" "completion_order env r (clients s) sel"] c
    by (simp add: collect_def)
  then show ?thesis using c
    by (auto simp: close_round_def Let_def outcome_state_def defense_controller_def
        split: sum.splits prod.splits)
qed

lemma exec_round_names:
  "map name (clients (outcome_state (snd (exec_round cfg env s r)))) = map name (clients s)"
proof (cases rule: exec_round_cases[of cfg env s r])
  case (fail e)
  then show ?thesis by (simp add: outcome_state_def)
next
  case (stall sel s1)
  then show ?thesis using select_clients_keeps[OF stall(1)] by (simp add: outcome_state_def)
next
  case (ok sel s1 t evs2 out)
  have "out = snd (close_round cfg env
         (s1\<lparr>defense_controller_counter :=
               snd (start_defense cfg (defense_controller_counter s1))\<rparr>) r sel t)"
    using ok(3) by simp
  then show ?thesis using ok(4) select_clients_keeps[OF ok(1)] close_round_names[of cfg env _ r sel t]
    by simp
qed

lemma exec_round_event_kinds:
  assumes "e \<in> set (fst (exec_round cfg env s r))"
  shows "\<not> is_save e \<and> (\<forall>n. e \<noteq> CallExecRound n)"
proof (cases rule: exec_round_cases[of cfg env s r])
  case (fail e')
  with assms show ?thesis by simp
next
  case (stall sel s1)
  with assms show ?thesis
    by (auto simp: dispatch_events_def set_regular_schedule_def is_save_def split: if_splits)
next
  case (ok sel s1 t evs2 out)
  with assms close_round_events[OF ok(3), of e] show ?thesis
    by (auto simp: dispatch_events_def set_regular_schedule_def is_save_def split: if_splits)
qed

lemma rounds_called_round: "rounds_called (fst (exec_round cfg env s r)) = []"
proof -
  have "\<forall>e\<in>set (fst (exec_round cfg env s r)). (case e of CallExecRound r \<Rightarrow> [r] | _ \<Rightarrow> []) = []"
    using exec_round_event_kinds[of _ cfg env s r] by (auto split: event.splits)
  then show ?thesis by (simp add: rounds_called_def)
qed

lemma rounds_called_append: "rounds_called (xs @ ys) = rounds_called xs @ rounds_called ys"
  by (simp add: rounds_called_def)

lemma exec_rounds_trace:
  "exec_rounds cfg env rs s = (evs, out) \<Longrightarrow>
     (\<forall>e\<in>set evs. \<not> is_save e)
     \<and> map name (clients (outcome_state out)) = map name (clients s)
     \<and> (case out of Returns s' \<Rightarrow> rounds_called evs = rs
         | _ \<Rightarrow> \<exists>n<length rs. rounds_called evs = take (Suc n) rs)"
proof (induction rs arbitrary: s evs out)
  case Nil
  then show ?case by (auto simp: rounds_called_def outcome_state_def)
next
  case (Cons r rest)
  obtain evs1 out1 where r1: "exec_round cfg env s r = (evs1, out1)"
    by (cases "exec_round cfg env s r")
  have k1: "\<forall>e\<in>set evs1. \<not> is_save e" and c1: "rounds_called evs1 = []"
    and n1: "map name (clients (outcome_state out1)) = map name (clients s)"
    using exec_round_event_kinds[of _ cfg env s r] rounds_called_round[of cfg env s r]
      exec_round_names[of cfg env s r] r1 by auto
  have call: "rounds_called [CallExecRound r] = [r]" "\<not> is_save (CallExecRound r)"
    by (simp_all add: rounds_called_def is_save_def)
  show ?case
  proof (cases out1)
    case (Returns s1)
    obtain evs2 out2 where r2: "exec_rounds cfg env rest s1 = (evs2, out2)"
      by (cases "exec_rounds cfg env rest s1")
    from Cons.IH[OF r2] have ih: "\<forall>e\<in>set evs2. \<not> is_save e"
      "map name (clients (outcome_state out2)) = map name (clients s1)"
      "case out2 of Returns s' \<Rightarrow> rounds_called evs2 = rest
         | _ \<Rightarrow> \<exists>n<length rest. rounds_called evs2 = take (Suc n) rest"
      by auto
    from Cons.prems r1 Returns r2 have e: "evs = CallExecRound r # evs1 @ evs2" "out = out2"
      by auto
    have rc: "rounds_called evs = r # rounds_called evs2"
      using e(1) c1 call(1) rounds_called_append[of "[CallExecRound r]" "evs1 @ evs2"]
        rounds_called_append[of evs1 evs2] by simp
    have "map name (clients (outcome_state out)) = map name (clients s)"
      using ih(2) n1 Returns e(2) by (simp add: outcome_state_def)
    moreover have "\<forall>e\<in>set evs. \<not> is_save e" using e(1) k1 ih(1) call(2) by auto
    moreover have "case out of Returns s' \<Rightarrow> rounds_called evs = r # rest
         | _ \<Rightarrow> \<exists>n<length (r # rest). rounds_called evs = take (Suc n) (r # rest)"
      using ih(3) rc e(2) by (cases out2) auto
    ultimately show ?thesis by simp
  next
    case (Raises err s1)
    with Cons.prems r1 have e: "evs = CallExecRound r # evs1" "out = out1" by auto
    have rc: "rounds_called evs = [r]"
      using e(1) c1 call(1) rounds_called_append[of "[CallExecRound r]" evs1] by simp
    show ?thesis using e k1 n1 call(2) rc Raises by auto
  next
    case (Stalls s1)
    with Cons.prems r1 have e: "evs = CallExecRound r # evs1" "out = out1" by auto
    have rc: "rounds_called evs = [r]"
      using e(1) c1 call(1) rounds_called_append[of "[CallExecRound r]" evs1] by simp
    show ?thesis using e k1 n1 call(2) rc Stalls by auto
  qed
qed


lemma save_data_names:
  assumes "map name cls' = map name cls"
  shows "map (\<lambda>c. Save (name c)) cls' = map (\<lambda>c. Save (name c)) cls"
proof -
  have "map Save (map name cls') = map Save (map name cls)" using assms by simp
  then show ?thesis by (simp add: comp_def)
qed

text \<open>
  C7. When \<open>run\<close> returns, it has called \<open>exec_round\<close> with exactly the indices
  \<open>0, ..., rounds - 1\<close> in this order, and its trace is that of the loop, which holds
  no \<open>save()\<close>, followed by one \<open>save()\<close> of the Federator's ledger and one of
  the ledger of every registered client. When a round raises or stalls, the loop ends
  there: the rounds called are \<open>0, ..., n\<close> for some \<open>n < rounds\<close> and nothing was
  saved.
\<close>

theorem run_rounds_then_save:
  assumes "run cfg env s = (evs, out)"
  shows "(\<forall>s'. out = Returns s' \<longrightarrow>
            rounds_called evs = [0..<rounds cfg]
            \<and> (\<exists>loop. evs = loop @ Save ''federator'' # map (\<lambda>c. Save (name c)) (clients s)
                       \<and> (\<forall>e\<in>set loop. \<not> is_save e)))
       \<and> ((\<forall>s'. out \<noteq> Returns s') \<longrightarrow>
            (\<forall>e\<in>set evs. \<not> is_save e)
            \<and> (\<exists>n<rounds cfg. rounds_called evs = [0..<Suc n]))"
proof -
  obtain evs0 out0 where r0: "exec_rounds cfg env [0..<rounds cfg] s = (evs0, out0)"
    by (cases "exec_rounds cfg env [0..<rounds cfg] s")
  from exec_rounds_trace[OF r0] have ns: "\<forall>e\<in>set evs0. \<not> is_save e"
    and nm: "map name (clients (outcome_state out0)) = map name (clients s)"
    and rc: "case out0 of Returns s' \<Rightarrow> rounds_called evs0 = [0..<rounds cfg]
         | _ \<Rightarrow> \<exists>n<length [0..<rounds cfg]. rounds_called evs0 = take (Suc n) [0..<rounds cfg]"
    by auto
  show ?thesis
  proof (cases out0)
    case (Returns s1)
    with assms r0 have e: "evs = evs0 @ save_data s1" "out = Returns s1"
      by (auto simp: run_def)
    have sd: "save_data s1 = Save ''federator'' # map (\<lambda>c. Save (name c)) (clients s)"
      using nm Returns save_data_names[of "clients s1" "clients s"]
      by (simp add: save_data_def outcome_state_def)
    have "rounds_called (save_data s1) = []"
      by (simp add: sd rounds_called_def comp_def)
    then have "rounds_called evs = [0..<rounds cfg]"
      using e(1) rc Returns by (simp add: rounds_called_append)
    then show ?thesis using e sd ns by auto
  next
    case (Raises err s1)
    with assms r0 have e: "evs = evs0" "out = out0" by (auto simp: run_def)
    from rc Raises obtain n where "n < rounds cfg" "rounds_called evs0 = take (Suc n) [0..<rounds cfg]"
      by auto
    then have "n < rounds cfg \<and> rounds_called evs0 = [0..<Suc n]"
      by (simp add: take_upt)
    then show ?thesis using e ns Raises by auto
  next
    case (Stalls s1)
    with assms r0 have e: "evs = evs0" "out = out0" by (auto simp: run_def)
    from rc Stalls obtain n where "n < rounds cfg" "rounds_called evs0 = take (Suc n) [0..<rounds cfg]"
      by auto
    then have "n < rounds cfg \<and> rounds_called evs0 = [0..<Suc n]"
      by (simp add: take_upt)
    then show ?thesis using e ns Stalls by auto
  qed
qed

theorem run_rounds_then_save_witness:
  "fst (run ex_cfg (ex_env ex_learners) ex_fed) =
     [CallExecRound 0, UpdateNNParameters ''client1'' [0], UpdateNNParameters ''client2'' [0],
      ExecRound ''client1'' 1 True, ExecRound ''client2'' 1 True, Sleep 100, Sleep 100, Sleep 500,
      Aggregate 2 [(''client2'', [0]), (''client1'', [0])] [(''client2'', 10), (''client1'', 10)] None,
      CallExecRound 1, UpdateNNParameters ''client2'' [0], UpdateNNParameters ''client1'' [0],
      ExecRound ''client2'' 1 True, ExecRound ''client1'' 1 True, Sleep 100, Sleep 100, Sleep 500,
      Aggregate 2 [(''client2'', [1]), (''client1'', [1])] [(''client2'', 10), (''client1'', 10)] None,
      Save ''federator'', Save ''client1'', Save ''client2'']
   \<and> outcome_error (snd (run ex_cfg (ex_env ex_learners) ex_fed)) = None
   \<and> rounds_called (fst (run ex_cfg (ex_env ex_learners) ex_fed)) = [0, 1]"
proof -
  have v: "fst (run ex_cfg (ex_env ex_learners) ex_fed) =
     [CallExecRound 0, UpdateNNParameters ''client1'' [0], UpdateNNParameters ''client2'' [0],
      ExecRound ''client1'' 1 True, ExecRound ''client2'' 1 True, Sleep 100, Sleep 100, Sleep 500,
      Aggregate 2 [(''client2'', [0]), (''client1'', [0])] [(''client2'', 10), (''client1'', 10)] None,
      CallExecRound 1, UpdateNNParameters ''client2'' [0], UpdateNNParameters ''client1'' [0],
      ExecRound ''client2'' 1 True, ExecRound ''client1'' 1 True, Sleep 100, Sleep 100, Sleep 500,
      Aggregate 2 [(''client2'', [1]), (''client1'', [1])] [(''client2'', 10), (''client1'', 10)] None,
      Save ''federator'', Save ''client1'', Save ''client2'']" by code_simp
  have r: "snd (run ex_cfg (ex_env ex_learners) ex_fed) =
             Returns (outcome_state (snd (run ex_cfg (ex_env ex_learners) ex_fed)))"
    by code_simp
  have p: "run ex_cfg (ex_env ex_learners) ex_fed =
             (fst (run ex_cfg (ex_env ex_learners) ex_fed), snd (run ex_cfg (ex_env ex_learners) ex_fed))"
    by simp
  from run_rounds_then_save[OF p] r
  have "rounds_called (fst (run ex_cfg (ex_env ex_learners) ex_fed)) = [0..<rounds ex_cfg]"
    by blast
  then have "rounds_called (fst (run ex_cfg (ex_env ex_learners) ex_fed)) = [0, 1]"
    by (simp add: ex_cfg_def upt_rec)
  moreover have "outcome_error (snd (run ex_cfg (ex_env ex_learners) ex_fed)) = None"
    by (subst r) (simp add: outcome_error_def)
  ultimately show ?thesis using v by simp
qed

lemma defense_controller_counter_after:
  "defense_controller_counter (defense_controller s) =
     (if defense_controller_counter s = 0 \<and> 1 < length (records s)
         \<and> accuracy_drop (records s ! (length (records s) - 2)) (records s ! (length (records s) - 1))
      then 5 else defense_controller_counter s)"
  by (simp add: defense_controller_def accuracy_drop_def)

lemma defense_controller_records: "records (defense_controller s) = records s"
  by (simp add: defense_controller_def)

lemma close_round_counter:
  assumes "close_round cfg env s r sel t = (evs, Returns s')" and "config_defense_controller cfg"
  shows "defense_controller_counter s' =
     (if defense_controller_counter s = 0 \<and> 1 < length (records s')
         \<and> accuracy_drop (records s' ! (length (records s') - 2)) (records s' ! (length (records s') - 1))
      then 5 else defense_controller_counter s)"
proof -
  from assms obtain s3 where s3: "s' = defense_controller s3"
      "defense_controller_counter s3 = defense_controller_counter s"
    by (auto simp: close_round_def Let_def split: sum.splits prod.splits)
  show ?thesis
    unfolding s3(1) defense_controller_records defense_controller_counter_after s3(2) ..
qed


lemma exec_round_counter:
  assumes "snd (exec_round cfg env s r) = Returns s'" and "config_defense_controller cfg"
  shows "defense_controller_counter s' =
     (let c = (if 0 < defense_controller_counter s then defense_controller_counter s - 1
               else defense_controller_counter s)
      in if c = 0 \<and> 1 < length (records s')
            \<and> accuracy_drop (records s' ! (length (records s') - 2))
                 (records s' ! (length (records s') - 1))
         then 5 else c)"
proof (cases rule: exec_round_cases[of cfg env s r])
  case (fail e)
  with assms show ?thesis by simp
next
  case (stall sel s1)
  with assms show ?thesis by simp
next
  case (ok sel s1 t evs2 out)
  with assms(1) have out: "out = Returns s'" by simp
  have c: "defense_controller_counter s1 = defense_controller_counter s"
    using select_clients_keeps[OF ok(1)] by simp
  from close_round_counter[OF ok(3)[unfolded out] assms(2)] c assms(2)
  show ?thesis by (simp add: start_defense_def Let_def)
qed

lemma dispatch_flags_append: "dispatch_flags (xs @ ys) = dispatch_flags xs @ dispatch_flags ys"
  by (simp add: dispatch_flags_def)

lemma dispatch_flags_set:
  "d \<in> set (dispatch_flags evs) \<longleftrightarrow> (\<exists>c n. ExecRound c n d \<in> set evs)"
proof
  assume "d \<in> set (dispatch_flags evs)"
  then obtain e where e: "e \<in> set evs" "d \<in> set (case e of ExecRound c n d \<Rightarrow> [d] | _ \<Rightarrow> [])"
    by (auto simp: dispatch_flags_def)
  then show "\<exists>c n. ExecRound c n d \<in> set evs" by (cases e) auto
next
  assume "\<exists>c n. ExecRound c n d \<in> set evs"
  then obtain c n where "ExecRound c n d \<in> set evs" by blast
  then show "d \<in> set (dispatch_flags evs)"
    by (force simp: dispatch_flags_def)
qed

lemma window_flags:
  assumes "config_defense_controller cfg"
  shows "int (length rs) \<le> defense_controller_counter s \<Longrightarrow>
           \<forall>d\<in>set (dispatch_flags (fst (exec_rounds cfg env rs s))). d"
proof (induction rs arbitrary: s)
  case Nil
  then show ?case by (simp add: dispatch_flags_def)
next
  case (Cons r rest)
  obtain evs1 out1 where r1: "exec_round cfg env s r = (evs1, out1)"
    by (cases "exec_round cfg env s r")
  from Cons.prems have pos: "0 < defense_controller_counter s" by simp
  have f1: "\<forall>d\<in>set (dispatch_flags evs1). d"
  proof
    fix d assume "d \<in> set (dispatch_flags evs1)"
    then obtain c n where "ExecRound c n d \<in> set (fst (exec_round cfg env s r))"
      using r1 by (auto simp: dispatch_flags_set)
    from exec_round_dispatch_flag[OF this] pos assms show d by (simp add: start_defense_def)
  qed
  have call: "\<And>evs. dispatch_flags (CallExecRound r # evs) = dispatch_flags evs"
    by (simp add: dispatch_flags_def)
  show ?case
  proof (cases out1)
    case (Returns s1)
    obtain evs2 out2 where r2: "exec_rounds cfg env rest s1 = (evs2, out2)"
      by (cases "exec_rounds cfg env rest s1")
    from r1 Returns have "snd (exec_round cfg env s r) = Returns s1" by simp
    from exec_round_counter[OF this assms] pos
    have "defense_controller_counter s - 1 \<le> defense_controller_counter s1"
      by (simp add: Let_def split: if_splits)
    with Cons.prems have "int (length rest) \<le> defense_controller_counter s1" by simp
    from Cons.IH[OF this] r2 have f2: "\<forall>d\<in>set (dispatch_flags evs2). d" by simp
    have "fst (exec_rounds cfg env (r # rest) s) = CallExecRound r # evs1 @ evs2"
      using r1 Returns r2 by simp
    then have "dispatch_flags (fst (exec_rounds cfg env (r # rest) s))
                 = dispatch_flags evs1 @ dispatch_flags evs2"
      by (simp only: call dispatch_flags_append)
    then show ?thesis using f1 f2 by (simp only: set_append) blast
  next
    case (Raises e s1)
    then have "fst (exec_rounds cfg env (r # rest) s) = CallExecRound r # evs1"
      using r1 by simp
    then have "dispatch_flags (fst (exec_rounds cfg env (r # rest) s)) = dispatch_flags evs1"
      by (simp only: call)
    then show ?thesis using f1 by (simp only:)
  next
    case (Stalls s1)
    then have "fst (exec_rounds cfg env (r # rest) s) = CallExecRound r # evs1"
      using r1 by simp
    then have "dispatch_flags (fst (exec_rounds cfg env (r # rest) s)) = dispatch_flags evs1"
      by (simp only: call)
    then show ?thesis using f1 by (simp only:)
  qed
qed

text \<open>
  C3 (amended). With the defense controller switched on: the defense flag of every
  training request of a round is true exactly when the countdown is positive at the
  start of the round; a round that returns leaves the countdown one lower if it was
  positive, and then sets it to 5 when it is 0 and the record just appended is more than
  0.5 below the one before it (a drop seen while the countdown is still positive leaves
  it as it is); and a countdown of at least \<open>n\<close> makes the flags of the next
  \<open>n\<close> rounds true, so the five rounds after an arming are dispatched with the flag
  true.
\<close>

theorem defense_window:
  assumes "config_defense_controller cfg"
  shows "(\<forall>c n d. ExecRound c n d \<in> set (fst (exec_round cfg env s r))
            \<longrightarrow> d = (0 < defense_controller_counter s))
       \<and> (\<forall>s'. snd (exec_round cfg env s r) = Returns s' \<longrightarrow>
            defense_controller_counter s' =
              (let c = (if 0 < defense_controller_counter s then defense_controller_counter s - 1
                        else defense_controller_counter s)
               in if c = 0 \<and> 1 < length (records s')
                     \<and> accuracy_drop (records s' ! (length (records s') - 2))
                          (records s' ! (length (records s') - 1))
                  then 5 else c))
       \<and> (int (length rs) \<le> defense_controller_counter s \<longrightarrow>
            (\<forall>d\<in>set (dispatch_flags (fst (exec_rounds cfg env rs s))). d))"
proof (intro conjI allI impI)
  fix c n d assume "ExecRound c n d \<in> set (fst (exec_round cfg env s r))"
  from exec_round_dispatch_flag[OF this] assms show "d = (0 < defense_controller_counter s)"
    by (simp add: start_defense_def)
next
  fix s' assume "snd (exec_round cfg env s r) = Returns s'"
  then show "defense_controller_counter s' =
              (let c = (if 0 < defense_controller_counter s then defense_controller_counter s - 1
                        else defense_controller_counter s)
               in if c = 0 \<and> 1 < length (records s')
                     \<and> accuracy_drop (records s' ! (length (records s') - 2))
                          (records s' ! (length (records s') - 1))
                  then 5 else c)"
    using assms by (rule exec_round_counter)
next
  assume "int (length rs) \<le> defense_controller_counter s"
  with assms show "\<forall>d\<in>set (dispatch_flags (fst (exec_rounds cfg env rs s))). d"
    by (rule window_flags)
qed

text \<open>
  C3 as stated fails: one client, eight rounds, clean accuracies 90, 80, 70, 70, ... The
  drop recorded in round 1 arms the countdown, and rounds 2 to 6 are dispatched with the
  flag true. The record of round 2 is again more than 0.5 below the one before it, but
  the countdown is 4 by then and is not set back to 5: round 7, the fifth round after
  that drop, is dispatched with the flag false.
\<close>

theorem defense_window_counterexample:
  "config_defense_controller ex_cfg_defense
   \<and> map test_accuracy
        (records (outcome_state (snd (run ex_cfg_defense (ex_env ex_learners) ex_fed_one))))
       = [90, 80, 70, 70, 70, 70, 70, 70]
   \<and> dispatch_flags (fst (run ex_cfg_defense (ex_env ex_learners) ex_fed_one))
       = [False, False, True, True, True, True, True, False]"
  by code_simp


theorem defense_window_witness:
  "config_defense_controller ex_cfg_defense
   \<and> int (length [0, 1, 2, 3, 4::nat])
        \<le> defense_controller_counter (ex_fed_one\<lparr>defense_controller_counter := 5\<rparr>)
   \<and> dispatch_flags (fst (exec_rounds ex_cfg_defense (ex_env ex_learners) [0, 1, 2, 3, 4]
                             (ex_fed_one\<lparr>defense_controller_counter := 5\<rparr>)))
       = replicate 5 True"
proof -
  let ?s = "ex_fed_one\<lparr>defense_controller_counter := 5\<rparr>"
  let ?flags = "dispatch_flags (fst (exec_rounds ex_cfg_defense (ex_env ex_learners) [0, 1, 2, 3, 4] ?s))"
  have h: "config_defense_controller ex_cfg_defense" by code_simp
  have c: "int (length [0, 1, 2, 3, 4::nat]) \<le> defense_controller_counter ?s" by simp
  have l: "length ?flags = 5" by code_simp
  from defense_window[OF h, of "ex_env ex_learners" ?s 0 "[0, 1, 2, 3, 4]"] c
  have "\<forall>d\<in>set ?flags. d" by blast
  then have "\<forall>d\<in>set ?flags. d = True" by simp
  then have "replicate (length ?flags) True = ?flags" by (rule replicate_length_same)
  with l have "?flags = replicate 5 True" by simp
  with h c show ?thesis by blast
qed

text \<open>
  The tables the adversarial-weighting pass of a round reads hold an entry for every
  selected client: the callbacks of the round have filled them.
\<close>

lemma update_key_set: "fst ` set (AList.update k v al) = insert k (fst ` set al)"
proof -
  have "set (map fst (AList.update k v al)) = insert k (set (map fst al))"
    by (auto simp: update_keys)
  then show ?thesis by simp
qed

lemma collect_fold_keys:
  assumes "set order \<subseteq> {..<length cls}"
    and "foldl (\<lambda>tabs i. training_cb cfg env r i tabs) (cw, cs, cls) order = (cw', cs', cls')"
  shows "fst ` set cw' = fst ` set cw \<union> (\<lambda>i. name (cls ! i)) ` set order
       \<and> fst ` set cs' = fst ` set cs \<union> (\<lambda>i. name (cls ! i)) ` set order"
  using assms
proof (induction order arbitrary: cw cs cls)
  case Nil
  then show ?case by simp
next
  case (Cons i order)
  obtain cw1 cs1 cls1 where s: "training_cb cfg env r i (cw, cs, cls) = (cw1, cs1, cls1)"
    by (cases "training_cb cfg env r i (cw, cs, cls)")
  have nm: "map name cls1 = map name cls"
    using training_cb_names[of cfg env r i "(cw, cs, cls)"] s by simp
  then have len: "length cls1 = length cls" by (metis length_map)
  have k1: "fst ` set cw1 = insert (name (cls ! i)) (fst ` set cw)"
           "fst ` set cs1 = insert (name (cls ! i)) (fst ` set cs)"
  proof -
    from s have "cw1 = AList.update (name (cls ! i)) (tr_weights (train_result (learner env r (ref (cls ! i))))) cw"
      and "cs1 = AList.update (name (cls ! i)) (datasize (learner env r (ref (cls ! i)))) cs"
      by (simp_all add: training_cb_def Let_def)
    then show "fst ` set cw1 = insert (name (cls ! i)) (fst ` set cw)"
      and "fst ` set cs1 = insert (name (cls ! i)) (fst ` set cs)"
      by (simp_all only: update_key_set)
  qed
  have same: "\<And>j. j \<in> set order \<Longrightarrow> name (cls1 ! j) = name (cls ! j)"
  proof -
    fix j assume "j \<in> set order"
    with Cons.prems(1) have j: "j < length cls" by auto
    then have "name (cls1 ! j) = map name cls1 ! j" using len by simp
    also have "\<dots> = name (cls ! j)" using nm j by simp
    finally show "name (cls1 ! j) = name (cls ! j)" .
  qed
  have sub: "set order \<subseteq> {..<length cls1}" using Cons.prems(1) len by simp
  have f: "foldl (\<lambda>tabs i. training_cb cfg env r i tabs) (cw1, cs1, cls1) order = (cw', cs', cls')"
    using Cons.prems(2) s by simp
  from Cons.IH[OF sub f] k1 same show ?case by auto
qed

lemma collect_tables_filled:
  assumes "set sel \<subseteq> {..<length cls}"
    and "collect cfg env r cls sel = (cw, cs, cls')"
  shows "name ` set (map (\<lambda>i. cls ! i) sel) \<subseteq> fst ` set cw
       \<and> name ` set (map (\<lambda>i. cls ! i) sel) \<subseteq> fst ` set cs"
proof -
  have o: "set (completion_order env r cls sel) = set sel"
    by (simp add: completion_order_def)
  from collect_fold_keys[of "completion_order env r cls sel" cls cfg env r "[]" "[]" cw cs cls']
    assms o
  show ?thesis by (auto simp: collect_def)
qed

lemma select_clients_positions:
  assumes "select_clients cfg env s r = Inr (sel, s1)"
  shows "set sel \<subseteq> {..<length (clients s)} \<and> distinct sel"
proof -
  from assms have "sel = fst (sample (np_next env) (np_seed env r) [0..<length (clients s)] (clients_per_round cfg))"
    by (auto simp: select_clients_def random_selection_def Let_def case_prod_beta split: if_splits sum.splits)
  then show ?thesis
    using sample_subset[of "np_next env" "np_seed env r" "[0..<length (clients s)]" "clients_per_round cfg"]
      sample_distinct[of "[0..<length (clients s)]" "np_next env" "np_seed env r" "clients_per_round cfg"]
    by auto
qed

lemma training_cb_clients:
  assumes "training_cb cfg env r i (cw, cs, cls) = (cw1, cs1, cls1)"
  shows "length cls1 = length cls
       \<and> (\<forall>j. name (cls1 ! j) = name (cls ! j) \<and> ref (cls1 ! j) = ref (cls ! j))
       \<and> cw1 = AList.update (name (cls ! i)) (tr_weights (train_result (learner env r (ref (cls ! i))))) cw
       \<and> cs1 = AList.update (name (cls ! i)) (datasize (learner env r (ref (cls ! i)))) cs"
proof (cases "i < length cls")
  case True
  with assms show ?thesis
    by (auto simp: training_cb_def Let_def nth_list_update)
next
  case False
  then have "length cls \<le> i" by simp
  then have "\<And>x. cls[i := x] = cls" by (rule list_update_beyond)
  with assms show ?thesis by (auto simp: training_cb_def Let_def)
qed

lemma collect_fold_lookup:
  assumes "set order \<subseteq> {..<length cls}" and "distinct (map name cls)"
    and "foldl (\<lambda>tabs i. training_cb cfg env r i tabs) (cw, cs, cls) order = (cw', cs', cls')"
  shows "(\<forall>n. n \<notin> (\<lambda>i. name (cls ! i)) ` set order \<longrightarrow>
            map_of cw' n = map_of cw n \<and> map_of cs' n = map_of cs n)
       \<and> (\<forall>i\<in>set order.
            map_of cw' (name (cls ! i)) = Some (tr_weights (train_result (learner env r (ref (cls ! i)))))
            \<and> map_of cs' (name (cls ! i)) = Some (datasize (learner env r (ref (cls ! i)))))"
  using assms
proof (induction order arbitrary: cw cs cls)
  case Nil
  then show ?case by simp
next
  case (Cons i order)
  obtain cw1 cs1 cls1 where s: "training_cb cfg env r i (cw, cs, cls) = (cw1, cs1, cls1)"
    by (cases "training_cb cfg env r i (cw, cs, cls)")
  from training_cb_clients[OF s] have len: "length cls1 = length cls"
    and same: "\<And>j. name (cls1 ! j) = name (cls ! j)" "\<And>j. ref (cls1 ! j) = ref (cls ! j)"
    and cw1: "cw1 = AList.update (name (cls ! i)) (tr_weights (train_result (learner env r (ref (cls ! i))))) cw"
    and cs1: "cs1 = AList.update (name (cls ! i)) (datasize (learner env r (ref (cls ! i)))) cs"
    by auto
  have nm: "map name cls1 = map name cls"
    using len same(1) by (auto intro: nth_equalityI)
  have sub: "set order \<subseteq> {..<length cls1}" using Cons.prems(1) len by simp
  have d1: "distinct (map name cls1)" using nm Cons.prems(2) by simp
  have f: "foldl (\<lambda>tabs i. training_cb cfg env r i tabs) (cw1, cs1, cls1) order = (cw', cs', cls')"
    using Cons.prems(3) s by simp
  from Cons.IH[OF sub d1 f] same
  have ih1: "\<And>n. n \<notin> (\<lambda>i. name (cls ! i)) ` set order \<Longrightarrow>
            map_of cw' n = map_of cw1 n \<and> map_of cs' n = map_of cs1 n"
    and ih2: "\<And>j. j \<in> set order \<Longrightarrow>
            map_of cw' (name (cls ! j)) = Some (tr_weights (train_result (learner env r (ref (cls ! j)))))
            \<and> map_of cs' (name (cls ! j)) = Some (datasize (learner env r (ref (cls ! j))))"
    by auto
  show ?case
  proof (intro conjI allI impI ballI)
    fix n assume n: "n \<notin> (\<lambda>i. name (cls ! i)) ` set (i # order)"
    then have "n \<noteq> name (cls ! i)" "n \<notin> (\<lambda>i. name (cls ! i)) ` set order" by auto
    with ih1[of n] cw1 cs1 show "map_of cw' n = map_of cw n" "map_of cs' n = map_of cs n"
      by (simp_all add: update_conv')
  next
    fix j assume j: "j \<in> set (i # order)"
    show "map_of cw' (name (cls ! j)) = Some (tr_weights (train_result (learner env r (ref (cls ! j)))))"
         "map_of cs' (name (cls ! j)) = Some (datasize (learner env r (ref (cls ! j))))"
    proof -
      have "map_of cw' (name (cls ! j)) = Some (tr_weights (train_result (learner env r (ref (cls ! j)))))
          \<and> map_of cs' (name (cls ! j)) = Some (datasize (learner env r (ref (cls ! j))))"
      proof (cases "j \<in> set order")
        case True
        then show ?thesis by (rule ih2)
      next
        case False
        with j have ji: "j = i" by simp
        have "name (cls ! i) \<notin> (\<lambda>i. name (cls ! i)) ` set order"
        proof
          assume "name (cls ! i) \<in> (\<lambda>i. name (cls ! i)) ` set order"
          then obtain k where k: "k \<in> set order" "name (cls ! k) = name (cls ! i)" by auto
          from k(1) Cons.prems(1) have "k < length cls" "i < length cls" by auto
          with k(2) Cons.prems(2) have "k = i"
            using nth_eq_iff_index_eq[of "map name cls" k i] by simp
          with k(1) False ji show False by simp
        qed
        from ih1[OF this] cw1 cs1 ji show ?thesis by (simp add: update_conv')
      qed
      then show "map_of cw' (name (cls ! j)) = Some (tr_weights (train_result (learner env r (ref (cls ! j)))))"
         "map_of cs' (name (cls ! j)) = Some (datasize (learner env r (ref (cls ! j))))"
        by simp_all
    qed
  qed
qed


lemma collect_tables_content:
  assumes sub: "set sel \<subseteq> {..<length cls}" and dist: "distinct (map name cls)"
    and col: "collect cfg env r cls sel = (cw, cs, cls')"
    and selected: "selected = map (\<lambda>i. cls ! i) sel"
  shows "(\<forall>c\<in>set selected.
            map_of cw (name c) = Some (tr_weights (train_result (learner env r (ref c))))
            \<and> map_of cs (name c) = Some (datasize (learner env r (ref c))))
       \<and> fst ` set cw = name ` set selected \<and> fst ` set cs = name ` set selected"
proof -
  let ?order = "completion_order env r cls sel"
  have o: "set ?order = set sel" by (simp add: completion_order_def)
  have f: "foldl (\<lambda>tabs i. training_cb cfg env r i tabs) ([], [], cls) ?order = (cw, cs, cls')"
    using col by (simp add: collect_def)
  have sub': "set ?order \<subseteq> {..<length cls}" using sub o by simp
  from collect_fold_lookup[OF sub' dist f] o
  have look: "\<forall>i\<in>set sel.
            map_of cw (name (cls ! i)) = Some (tr_weights (train_result (learner env r (ref (cls ! i)))))
            \<and> map_of cs (name (cls ! i)) = Some (datasize (learner env r (ref (cls ! i))))"
    by simp
  from collect_fold_keys[OF sub' f] o
  have keys: "fst ` set cw = (\<lambda>i. name (cls ! i)) ` set sel" "fst ` set cs = (\<lambda>i. name (cls ! i)) ` set sel"
    by simp_all
  have im: "name ` set selected = (\<lambda>i. name (cls ! i)) ` set sel"
    using selected by (auto simp: image_image)
  show ?thesis using look keys im selected by auto
qed

lemma close_round_Aggregate:
  assumes "close_round cfg env s r sel t = (evs, out)"
    and "collect cfg env r (clients s) sel = (cw, cs, cls)"
  shows "(Aggregate t' cw' cs' b \<in> set evs \<longrightarrow>
            boost_pass cfg (\<lambda>c. status (learner env r (ref c))) (map (\<lambda>i. clients s ! i) sel) cw cs
              = Inr (cw', cs'))
       \<and> (boost_pass cfg (\<lambda>c. status (learner env r (ref c))) (map (\<lambda>i. clients s ! i) sel) cw cs
              = Inr (cw', cs') \<longrightarrow> Aggregate t cw' cs' (aggregation_beta cfg) \<in> set evs)"
  using assms
  by (auto simp: close_round_def Let_def wandb_events_def split: sum.splits prod.splits if_splits)

lemma exec_round_Aggregate:
  assumes sel: "select_clients cfg env s r = Inr (sel, s1)"
    and col: "collect cfg env r (clients s) sel = (cw, cs, cls)"
  shows "(Aggregate t cw' cs' b \<in> set (fst (exec_round cfg env s r)) \<longrightarrow>
            boost_pass cfg (\<lambda>c. status (learner env r (ref c))) (map (\<lambda>i. clients s ! i) sel) cw cs
              = Inr (cw', cs'))
       \<and> ((\<forall>i\<in>set sel. done_tick (learner env r (ref (clients s ! i))) \<noteq> None)
            \<and> boost_pass cfg (\<lambda>c. status (learner env r (ref c))) (map (\<lambda>i. clients s ! i) sel) cw cs
              = Inr (cw', cs')
            \<longrightarrow> (\<exists>t. Aggregate t cw' cs' (aggregation_beta cfg) \<in> set (fst (exec_round cfg env s r))))"
proof (cases rule: exec_round_cases[of cfg env s r])
  case (fail e)
  with sel show ?thesis by simp
next
  case (stall sel' s1')
  with sel have eq: "sel' = sel" "s1' = s1" by auto
  have "\<exists>s'. snd (exec_round cfg env s r) = Stalls s'" using stall(3) by simp
  then have "\<exists>i\<in>set sel. done_tick (learner env r (ref (clients s ! i))) = None"
    using exec_round_stalls_iff[OF sel] by simp
  then show ?thesis using stall(3) by (auto simp: no_Aggregate_in_dispatch)
next
  case (ok sel' s1' t' evs2 out)
  with sel have eq: "sel' = sel" "s1' = s1" by auto
  let ?s2 = "s1\<lparr>defense_controller_counter :=
                  snd (start_defense cfg (defense_controller_counter s1))\<rparr>"
  have cl: "clients ?s2 = clients s" using select_clients_keeps[OF sel] by simp
  have cr: "close_round cfg env ?s2 r sel t' = (evs2, out)" using ok(3) eq by simp
  have col': "collect cfg env r (clients ?s2) sel = (cw, cs, cls)" using col cl by simp
  have in2: "Aggregate t cw' cs' b \<in> set (fst (exec_round cfg env s r))
               \<longleftrightarrow> Aggregate t cw' cs' b \<in> set evs2"
    using ok(4) by (auto simp: no_Aggregate_in_dispatch)
  have in3: "Aggregate t' cw' cs' (aggregation_beta cfg) \<in> set evs2
               \<Longrightarrow> Aggregate t' cw' cs' (aggregation_beta cfg) \<in> set (fst (exec_round cfg env s r))"
    using ok(4) by simp
  from close_round_Aggregate[OF cr col', of t cw' cs' b] in2 in3 cl show ?thesis by auto
qed


text \<open>
  C2. The tables the aggregation of a round reads, for a registry with different names.
  With \<open>flagged\<close> and \<open>benign\<close> the flagged and the benign selected clients in
  the order of selection: the clients overwritten (\<open>victims\<close>) are none when the boost
  is at most 1 or no selected client is flagged, and otherwise the first
  \<open>min (boost - 1) (number of benign selected clients)\<close> benign ones. Whenever the round
  calls the aggregation method, each table holds exactly one entry per selected client:
  for a victim, the trained weights and the data size of the last flagged selected
  learner, and for every other client, its own learner's. A round whose futures all
  complete does call the aggregation method.
\<close>

theorem round_boost_substitution:
  assumes sel: "select_clients cfg env s r = Inr (sel, s1)"
    and dist: "distinct (map name (clients s))"
    and selected: "selected = map (\<lambda>i. clients s ! i) sel"
    and flagged: "flagged = filter (\<lambda>c. status (learner env r (ref c))) selected"
    and benign: "benign = filter (\<lambda>c. \<not> status (learner env r (ref c))) selected"
    and victims: "victims = (if 1 < mal_boost cfg \<and> flagged \<noteq> []
                             then take (nat (mal_boost cfg - 1)) benign else [])"
    and source: "source = (\<lambda>c. if c \<in> set victims then last flagged else c)"
  shows "length victims = (if 1 < mal_boost cfg \<and> flagged \<noteq> []
                           then min (nat (mal_boost cfg - 1)) (length benign) else 0)
       \<and> set victims \<subseteq> set benign
       \<and> ((\<forall>i\<in>set sel. done_tick (learner env r (ref (clients s ! i))) \<noteq> None) \<longrightarrow>
            (\<exists>t cw cs. Aggregate t cw cs (aggregation_beta cfg) \<in> set (fst (exec_round cfg env s r))))
       \<and> (\<forall>t cw cs b. Aggregate t cw cs b \<in> set (fst (exec_round cfg env s r)) \<longrightarrow>
            (\<forall>c\<in>set selected.
               map_of cw (name c) = Some (tr_weights (train_result (learner env r (ref (source c)))))
               \<and> map_of cs (name c) = Some (datasize (learner env r (ref (source c)))))
            \<and> fst ` set cw = name ` set selected \<and> fst ` set cs = name ` set selected)"
proof -
  let ?mal = "\<lambda>c. status (learner env r (ref c))"
  let ?W = "\<lambda>c. tr_weights (train_result (learner env r (ref c)))"
  let ?Z = "\<lambda>c. datasize (learner env r (ref c))"
  let ?V = "take (nat (mal_boost cfg - 1)) benign"
  from select_clients_positions[OF sel]
  have pos: "set sel \<subseteq> {..<length (clients s)}" and dsel: "distinct sel" by auto
  have dn: "distinct (map name selected)"
    using distinct_positions_names[OF dist dsel pos] selected by (simp add: comp_def)
  obtain cw0 cs0 cls where col: "collect cfg env r (clients s) sel = (cw0, cs0, cls)"
    by (cases "collect cfg env r (clients s) sel")
  from collect_tables_content[OF pos dist col selected]
  have own: "\<And>c. c \<in> set selected \<Longrightarrow> map_of cw0 (name c) = Some (?W c) \<and> map_of cs0 (name c) = Some (?Z c)"
    and kw: "fst ` set cw0 = name ` set selected" and ks: "fst ` set cs0 = name ` set selected"
    by auto
  have kw': "name ` set selected \<subseteq> fst ` set cw0" and ks': "name ` set selected \<subseteq> fst ` set cs0"
    using kw ks by simp_all
  have fl_iff: "flagged \<noteq> [] \<longleftrightarrow> (\<exists>c\<in>set selected. ?mal c)"
    using flagged by (auto simp: filter_empty_conv)
  note bp = boost_pass_substitution[OF dn kw' ks' benign[unfolded selected, folded selected] refl refl,
      of cfg]
  have vsub: "set victims \<subseteq> set benign" using victims by (auto dest: in_set_takeD)
  have bsub: "set benign \<subseteq> set selected" using benign by auto
  have len: "length victims = (if 1 < mal_boost cfg \<and> flagged \<noteq> []
                           then min (nat (mal_boost cfg - 1)) (length benign) else 0)"
    using victims by (simp add: min.commute)
  have pass: "\<exists>cw' cs'. boost_pass cfg ?mal selected cw0 cs0 = Inr (cw', cs')
       \<and> (\<forall>c\<in>set selected. map_of cw' (name c) = Some (?W (source c))
                              \<and> map_of cs' (name c) = Some (?Z (source c)))
       \<and> fst ` set cw' = name ` set selected \<and> fst ` set cs' = name ` set selected"
  proof (cases "1 < mal_boost cfg \<and> flagged \<noteq> []")
    case False
    then have v: "victims = []" using victims by auto
    from False fl_iff have "mal_boost cfg \<le> 1 \<or> \<not> (\<exists>c\<in>set selected. ?mal c)" by auto
    with bp have "boost_pass cfg ?mal selected cw0 cs0 = Inr (cw0, cs0)" by blast
    then show ?thesis using own kw ks v source by auto
  next
    case True
    then have v: "victims = ?V" using victims by simp
    from True fl_iff have a: "1 < mal_boost cfg \<and> (\<exists>c\<in>set selected. ?mal c)" by auto
    with bp obtain cw' cs' w z where
      p: "boost_pass cfg ?mal selected cw0 cs0 = Inr (cw', cs')"
      and w: "map_of cw0 (name (last (filter ?mal selected))) = Some w"
      and z: "map_of cs0 (name (last (filter ?mal selected))) = Some z"
      and lw: "\<forall>n. map_of cw' n = (if n \<in> name ` set ?V then Some w else map_of cw0 n)"
      and lz: "\<forall>n. map_of cs' n = (if n \<in> name ` set ?V then Some z else map_of cs0 n)"
      and kk: "map fst cw' = map fst cw0" "map fst cs' = map fst cs0"
      by blast
    have lastsel: "last flagged \<in> set selected"
      using last_flagged[of selected ?mal] a flagged by auto
    from own[OF lastsel] w z flagged have wz: "w = ?W (last flagged)" "z = ?Z (last flagged)"
      by simp_all
    have inj: "\<And>c. c \<in> set selected \<Longrightarrow> name c \<in> name ` set ?V \<longleftrightarrow> c \<in> set victims"
    proof
      fix c assume c: "c \<in> set selected" and "name c \<in> name ` set ?V"
      then obtain u where u: "u \<in> set ?V" "name u = name c" by auto
      then have "u \<in> set selected" using v vsub bsub by auto
      with u(2) c dn have "u = c" by (metis distinct_map inj_on_eq_iff)
      with u(1) v show "c \<in> set victims" by simp
    next
      fix c assume "c \<in> set victims"
      then show "name c \<in> name ` set ?V" using v by auto
    qed
    have "\<forall>c\<in>set selected. map_of cw' (name c) = Some (?W (source c))
                              \<and> map_of cs' (name c) = Some (?Z (source c))"
      using lw lz inj own wz source by auto
    moreover have "fst ` set cw' = name ` set selected" "fst ` set cs' = name ` set selected"
      using kk kw ks by (metis set_map)+
    ultimately show ?thesis using p by blast
  qed
  then obtain cw' where "\<exists>cs'. boost_pass cfg ?mal selected cw0 cs0 = Inr (cw', cs')
       \<and> (\<forall>c\<in>set selected. map_of cw' (name c) = Some (?W (source c))
                              \<and> map_of cs' (name c) = Some (?Z (source c)))
       \<and> fst ` set cw' = name ` set selected \<and> fst ` set cs' = name ` set selected" ..
  then obtain cs' where all4: "boost_pass cfg ?mal selected cw0 cs0 = Inr (cw', cs')
       \<and> (\<forall>c\<in>set selected. map_of cw' (name c) = Some (?W (source c))
                              \<and> map_of cs' (name c) = Some (?Z (source c)))
       \<and> fst ` set cw' = name ` set selected \<and> fst ` set cs' = name ` set selected" ..
  from all4 have p: "boost_pass cfg ?mal selected cw0 cs0 = Inr (cw', cs')" by (rule conjunct1)
  from all4 have tabs: "(\<forall>c\<in>set selected. map_of cw' (name c) = Some (?W (source c))
                              \<and> map_of cs' (name c) = Some (?Z (source c)))
       \<and> fst ` set cw' = name ` set selected \<and> fst ` set cs' = name ` set selected"
    by (rule conjunct2)
  have p': "boost_pass cfg ?mal (map (\<lambda>i. clients s ! i) sel) cw0 cs0 = Inr (cw', cs')"
    using p selected by simp
  have ex: "(\<forall>i\<in>set sel. done_tick (learner env r (ref (clients s ! i))) \<noteq> None) \<longrightarrow>
            (\<exists>t cw cs. Aggregate t cw cs (aggregation_beta cfg) \<in> set (fst (exec_round cfg env s r)))"
  proof
    assume a: "\<forall>i\<in>set sel. done_tick (learner env r (ref (clients s ! i))) \<noteq> None"
    from exec_round_Aggregate[OF sel col, of 0 cw' cs' None, THEN conjunct2] a p'
    obtain t where "Aggregate t cw' cs' (aggregation_beta cfg) \<in> set (fst (exec_round cfg env s r))"
      by blast
    then show "\<exists>t cw cs. Aggregate t cw cs (aggregation_beta cfg) \<in> set (fst (exec_round cfg env s r))"
      by (intro exI)
  qed
  have all: "\<forall>t cw cs b. Aggregate t cw cs b \<in> set (fst (exec_round cfg env s r)) \<longrightarrow>
            (\<forall>c\<in>set selected.
               map_of cw (name c) = Some (?W (source c)) \<and> map_of cs (name c) = Some (?Z (source c)))
            \<and> fst ` set cw = name ` set selected \<and> fst ` set cs = name ` set selected"
  proof (intro allI impI)
    fix t cw cs b assume "Aggregate t cw cs b \<in> set (fst (exec_round cfg env s r))"
    with exec_round_Aggregate[OF sel col, of t cw cs b, THEN conjunct1]
    have "boost_pass cfg ?mal (map (\<lambda>i. clients s ! i) sel) cw0 cs0 = Inr (cw, cs)" by (rule mp)
    with p' have "cw = cw'" "cs = cs'" by simp_all
    with tabs show "(\<forall>c\<in>set selected.
               map_of cw (name c) = Some (?W (source c)) \<and> map_of cs (name c) = Some (?Z (source c)))
            \<and> fst ` set cw = name ` set selected \<and> fst ` set cs = name ` set selected"
      by simp
  qed
  show ?thesis by (intro conjI len vsub ex all)
qed


theorem round_boost_substitution_witness:
  "select_clients ex_cfg_boost (ex_env ex_learners_five) ex_fed_five 0
     = Inr ([0, 2, 4, 3, 1], ex_fed_five\<lparr>np_random := 5\<rparr>)
   \<and> distinct (map name (clients ex_fed_five))
   \<and> mal_boost ex_cfg_boost = 3
   \<and> filter (\<lambda>c. status (learner (ex_env ex_learners_five) 0 (ref c)))
        (map (\<lambda>i. clients ex_fed_five ! i) [0, 2, 4, 3, 1]) = [ex_client ''client3'']
   \<and> filter (\<lambda>c. \<not> status (learner (ex_env ex_learners_five) 0 (ref c)))
        (map (\<lambda>i. clients ex_fed_five ! i) [0, 2, 4, 3, 1])
       = [ex_client ''client1'', ex_client ''client5'', ex_client ''client4'', ex_client ''client2'']
   \<and> length (take (nat (mal_boost ex_cfg_boost - 1))
        (filter (\<lambda>c. \<not> status (learner (ex_env ex_learners_five) 0 (ref c)))
           (map (\<lambda>i. clients ex_fed_five ! i) [0, 2, 4, 3, 1]))) = 2
   \<and> Aggregate 0
        [(''client1'', [3]), (''client3'', [3]), (''client5'', [3]),
         (''client4'', [4]), (''client2'', [2])]
        [(''client1'', 10), (''client3'', 10), (''client5'', 10),
         (''client4'', 10), (''client2'', 10)]
        None
       \<in> set (fst (exec_round ex_cfg_boost (ex_env ex_learners_five) ex_fed_five 0))"
proof -
  let ?env = "ex_env ex_learners_five"
  let ?selected = "map (\<lambda>i. clients ex_fed_five ! i) [0, 2, 4, 3, 1]"
  have s: "select_clients ex_cfg_boost ?env ex_fed_five 0
     = Inr ([0, 2, 4, 3, 1], ex_fed_five\<lparr>np_random := 5\<rparr>)" by code_simp
  have d: "distinct (map name (clients ex_fed_five))" by code_simp
  have b: "mal_boost ex_cfg_boost = 3" by code_simp
  have f: "filter (\<lambda>c. status (learner ?env 0 (ref c))) ?selected = [ex_client ''client3'']"
    by code_simp
  have g: "filter (\<lambda>c. \<not> status (learner ?env 0 (ref c))) ?selected
       = [ex_client ''client1'', ex_client ''client5'', ex_client ''client4'', ex_client ''client2'']"
    by code_simp
  have a: "Aggregate 0
        [(''client1'', [3]), (''client3'', [3]), (''client5'', [3]),
         (''client4'', [4]), (''client2'', [2])]
        [(''client1'', 10), (''client3'', 10), (''client5'', 10),
         (''client4'', 10), (''client2'', 10)]
        None
       \<in> set (fst (exec_round ex_cfg_boost ?env ex_fed_five 0))"
    unfolding exec_round_boost_example by simp
  from round_boost_substitution[OF s d refl refl refl refl refl, THEN conjunct1]
  have "length (if 1 < mal_boost ex_cfg_boost
                   \<and> filter (\<lambda>c. status (learner ?env 0 (ref c))) ?selected \<noteq> []
                then take (nat (mal_boost ex_cfg_boost - 1))
                       (filter (\<lambda>c. \<not> status (learner ?env 0 (ref c))) ?selected)
                else [])
        = (if 1 < mal_boost ex_cfg_boost
                   \<and> filter (\<lambda>c. status (learner ?env 0 (ref c))) ?selected \<noteq> []
           then min (nat (mal_boost ex_cfg_boost - 1))
                  (length (filter (\<lambda>c. \<not> status (learner ?env 0 (ref c))) ?selected))
           else 0)" .
  then have l: "length (take (nat (mal_boost ex_cfg_boost - 1))
        (filter (\<lambda>c. \<not> status (learner ?env 0 (ref c))) ?selected)) = 2"
    unfolding f g b by simp
  from s d b f g l a show ?thesis by (intro conjI)
qed

section \<open>The Orchestrator's queue\<close>

text \<open>
  \<open>heappush\<close> and \<open>heappop\<close> keep the items (as a multiset) and the heap order, and
  the root of a heap is an item of least key.
\<close>

declare siftdown_loop.simps [simp del] siftup_loop.simps [simp del]

lemma length_siftdown_loop [simp]:
  "length (siftdown_loop key heap startpos pos newitem) = length heap"
  by (induction key heap startpos pos newitem rule: siftdown_loop.induct)
     (subst siftdown_loop.simps, simp add: Let_def)

lemma mset_siftdown_loop:
  "pos < length heap \<Longrightarrow>
     mset (siftdown_loop key heap startpos pos newitem) = mset (heap[pos := newitem])"
proof (induction key heap startpos pos newitem rule: siftdown_loop.induct)
  case (1 key heap startpos pos newitem)
  let ?pp = "(pos - 1) div 2"
  show ?case
  proof (cases "startpos < pos \<and> key newitem < key (heap ! ?pp)")
    case True
    then have pp: "?pp < pos" "?pp < length heap" using 1(2) by auto
    have "mset (siftdown_loop key (heap[pos := heap ! ?pp]) startpos ?pp newitem)
            = mset ((heap[pos := heap ! ?pp])[?pp := newitem])"
      using 1(1)[OF _ refl refl] True pp by simp
    also have "\<dots> = mset (heap[pos := newitem])"
    proof -
      let ?ls = "heap[pos := newitem]"
      have "mset (?ls[pos := ?ls ! ?pp, ?pp := ?ls ! pos]) = mset ?ls"
        using pp 1(2) by (intro mset_swap) simp_all
      moreover have "?ls[pos := ?ls ! ?pp, ?pp := ?ls ! pos] = (heap[pos := heap ! ?pp])[?pp := newitem]"
        using pp 1(2) by simp
      ultimately show ?thesis by simp
    qed
    finally show ?thesis using True by (subst siftdown_loop.simps) (simp add: Let_def)
  next
    case False
    then show ?thesis by (subst siftdown_loop.simps) (auto simp: Let_def)
  qed
qed


lemma child_iff: "0 < c \<and> (c - 1) div 2 = pos \<longleftrightarrow> c = 2 * pos + 1 \<or> c = 2 * pos + (2::nat)"
  by presburger

lemma siftdown_loop_heap:
  assumes "startpos = 0" "pos < length heap" "heap_except key heap pos"
    and "\<forall>c. 0 < c \<and> c < length heap \<and> (c - 1) div 2 = pos \<longrightarrow>
           key newitem \<le> key (heap ! c)
           \<and> (0 < pos \<longrightarrow> key (heap ! ((pos - 1) div 2)) \<le> key (heap ! c))"
  shows "is_heap key (siftdown_loop key heap startpos pos newitem)"
  using assms
proof (induction key heap startpos pos newitem rule: siftdown_loop.induct)
  case (1 key heap startpos pos newitem)
  let ?pp = "(pos - 1) div 2"
  note A = 1(4)[unfolded heap_except_def, rule_format]
  note C = 1(5)[rule_format]
  show ?case
  proof (cases "startpos < pos \<and> key newitem < key (heap ! ?pp)")
    case True
    then have pos: "0 < pos" and lt: "key newitem < key (heap ! ?pp)" using 1(2) by auto
    have pp: "?pp < pos" "?pp < length heap" using pos 1(3) by auto
    let ?h = "heap[pos := heap ! ?pp]"
    have A': "heap_except key ?h ?pp"
      unfolding heap_except_def
    proof (intro allI impI)
      fix i assume i: "0 < i \<and> i < length ?h \<and> i \<noteq> ?pp \<and> (i - 1) div 2 \<noteq> ?pp"
      then have inp: "i \<noteq> pos" by auto
      show "key (?h ! ((i - 1) div 2)) \<le> key (?h ! i)"
      proof (cases "(i - 1) div 2 = pos")
        case True
        with i inp C[of i] pos 1(3) show ?thesis by (simp add: nth_list_update)
      next
        case False
        with i inp A[of i] show ?thesis by (simp add: nth_list_update)
      qed
    qed
    have C': "\<forall>c. 0 < c \<and> c < length ?h \<and> (c - 1) div 2 = ?pp \<longrightarrow>
           key newitem \<le> key (?h ! c)
           \<and> (0 < ?pp \<longrightarrow> key (?h ! ((?pp - 1) div 2)) \<le> key (?h ! c))"
    proof (intro allI impI)
      fix c assume c: "0 < c \<and> c < length ?h \<and> (c - 1) div 2 = ?pp"
      have ppp: "(?pp - 1) div 2 \<noteq> pos" using pp by auto
      have up: "0 < ?pp \<Longrightarrow> key (heap ! ((?pp - 1) div 2)) \<le> key (heap ! ?pp)"
        using A[of ?pp] pp ppp by auto
      show "key newitem \<le> key (?h ! c)
           \<and> (0 < ?pp \<longrightarrow> key (?h ! ((?pp - 1) div 2)) \<le> key (?h ! c))"
      proof (cases "c = pos")
        case True
        with lt up ppp 1(3) show ?thesis by (simp add: nth_list_update)
      next
        case False
        with c A[of c] pp have "key (heap ! ?pp) \<le> key (heap ! c)" by auto
        with False lt up ppp c show ?thesis by (auto simp: nth_list_update)
      qed
    qed
    have "is_heap key (siftdown_loop key ?h startpos ?pp newitem)"
      using 1(1)[OF _ refl refl _ 1(2) _ A'] True pp C' by simp
    then show ?thesis using True by (subst siftdown_loop.simps) (simp add: Let_def)
  next
    case False
    have "is_heap key (heap[pos := newitem])"
      unfolding is_heap_def
    proof (intro allI impI)
      fix i assume i: "0 < i \<and> i < length (heap[pos := newitem])"
      show "key (heap[pos := newitem] ! ((i - 1) div 2)) \<le> key (heap[pos := newitem] ! i)"
      proof (cases "i = pos")
        case True
        with i False 1(2) have "\<not> key newitem < key (heap ! ?pp)" by auto
        moreover have "?pp \<noteq> pos" using True i by auto
        ultimately show ?thesis using True 1(3) by (simp add: nth_list_update)
      next
        case ni: False
        show ?thesis
        proof (cases "(i - 1) div 2 = pos")
          case True
          with i ni C[of i] 1(3) show ?thesis by (simp add: nth_list_update)
        next
          case False
          with i ni A[of i] show ?thesis by (simp add: nth_list_update)
        qed
      qed
    qed
    then show ?thesis using False by (subst siftdown_loop.simps) (auto simp: Let_def)
  qed
qed


lemma is_heap_except: "is_heap key heap \<Longrightarrow> heap_except key heap pos"
  by (simp add: is_heap_def heap_except_def)

lemma heap_except_update: "heap_except key (heap[pos := x]) pos = heap_except key heap pos"
  by (auto simp: heap_except_def nth_list_update)

lemma mset_heappush: "mset (heappush key heap item) = add_mset item (mset heap)"
proof -
  have "mset (heappush key heap item) = mset ((heap @ [item])[length heap := item])"
    unfolding heappush_def siftdown_def
    by (subst mset_siftdown_loop) simp_all
  then show ?thesis by simp
qed

lemma is_heap_heappush:
  assumes "is_heap key heap"
  shows "is_heap key (heappush key heap item)"
proof -
  let ?h = "heap @ [item]"
  have A: "heap_except key ?h (length heap)"
    unfolding heap_except_def
  proof (intro allI impI)
    fix i assume i: "0 < i \<and> i < length ?h \<and> i \<noteq> length heap \<and> (i - 1) div 2 \<noteq> length heap"
    then have "i < length heap" by simp
    moreover then have "(i - 1) div 2 < length heap" by auto
    ultimately show "key (?h ! ((i - 1) div 2)) \<le> key (?h ! i)"
      using assms i by (simp add: is_heap_def nth_append)
  qed
  have C: "\<forall>c. 0 < c \<and> c < length ?h \<and> (c - 1) div 2 = length heap \<longrightarrow>
           key (?h ! length heap) \<le> key (?h ! c)
           \<and> (0 < length heap \<longrightarrow> key (?h ! ((length heap - 1) div 2)) \<le> key (?h ! c))"
    by auto
  show ?thesis
    unfolding heappush_def siftdown_def
    by (rule siftdown_loop_heap[OF refl _ A C]) simp
qed

lemma heap_root_least:
  assumes "is_heap key heap" "i < length heap"
  shows "key (heap ! 0) \<le> key (heap ! i)"
  using assms(2)
proof (induction i rule: less_induct)
  case (less i)
  show ?case
  proof (cases "i = 0")
    case True
    then show ?thesis by simp
  next
    case False
    then have p: "(i - 1) div 2 < i" by auto
    with less.prems have "(i - 1) div 2 < length heap" by simp
    from less.IH[OF p this] have "key (heap ! 0) \<le> key (heap ! ((i - 1) div 2))" .
    also have "\<dots> \<le> key (heap ! i)" using assms(1) False less.prems by (simp add: is_heap_def)
    finally show ?thesis .
  qed
qed

lemma siftup_loop_step:
  assumes "2 * pos + 1 < length heap"
    and "c = (if 2 * pos + 1 + 1 < length heap
                 \<and> \<not> key (heap ! (2 * pos + 1)) < key (heap ! (2 * pos + 1 + 1))
              then 2 * pos + 1 + 1 else 2 * pos + 1)"
  shows "siftup_loop key heap pos = siftup_loop key (heap[pos := heap ! c]) c"
    and "c < length heap" and "pos < c" and "(c - 1) div 2 = pos"
    and "\<forall>c'. 0 < c' \<and> c' < length heap \<and> (c' - 1) div 2 = pos \<longrightarrow> key (heap ! c) \<le> key (heap ! c')"
proof -
  show "siftup_loop key heap pos = siftup_loop key (heap[pos := heap ! c]) c"
    using assms by (subst siftup_loop.simps) (simp add: Let_def cong del: if_weak_cong)
  show "c < length heap" "pos < c" "(c - 1) div 2 = pos" using assms by auto
  show "\<forall>c'. 0 < c' \<and> c' < length heap \<and> (c' - 1) div 2 = pos \<longrightarrow> key (heap ! c) \<le> key (heap ! c')"
  proof (intro allI impI)
    fix c' assume c': "0 < c' \<and> c' < length heap \<and> (c' - 1) div 2 = pos"
    then have "c' = 2 * pos + 1 \<or> c' = 2 * pos + 2" using child_iff[of c' pos] by simp
    then show "key (heap ! c) \<le> key (heap ! c')"
      using assms(2) c' by (auto split: if_splits)
  qed
qed

lemma siftup_loop_leaf:
  "\<not> 2 * pos + 1 < length heap \<Longrightarrow> siftup_loop key heap pos = (heap, pos)"
  by (subst siftup_loop.simps) (simp add: Let_def)

lemma length_siftup_loop:
  "siftup_loop key heap pos = (heap', pos') \<Longrightarrow> pos < length heap \<Longrightarrow>
     length heap' = length heap \<and> pos' < length heap \<and> length heap \<le> 2 * pos' + 1"
proof (induction key heap pos arbitrary: heap' pos' rule: siftup_loop.induct)
  case (1 key heap pos)
  show ?case
  proof (cases "2 * pos + 1 < length heap")
    case True
    define c where "c = (if 2 * pos + 1 + 1 < length heap
                 \<and> \<not> key (heap ! (2 * pos + 1)) < key (heap ! (2 * pos + 1 + 1))
              then 2 * pos + 1 + 1 else 2 * pos + 1)"
    note st = siftup_loop_step[OF True c_def]
    have eq: "siftup_loop key (heap[pos := heap ! c]) c = (heap', pos')"
      using 1(2) st(1) by simp
    from 1(1)[OF refl True refl c_def eq] st(2) show ?thesis by simp
  next
    case False
    with 1(2,3) siftup_loop_leaf[OF False, of key] show ?thesis by auto
  qed
qed

lemma mset_siftup_loop:
  "siftup_loop key heap pos = (heap', pos') \<Longrightarrow> pos < length heap \<Longrightarrow>
     mset (heap'[pos' := x]) = mset (heap[pos := x])"
proof (induction key heap pos arbitrary: heap' pos' rule: siftup_loop.induct)
  case (1 key heap pos)
  show ?case
  proof (cases "2 * pos + 1 < length heap")
    case True
    define c where "c = (if 2 * pos + 1 + 1 < length heap
                 \<and> \<not> key (heap ! (2 * pos + 1)) < key (heap ! (2 * pos + 1 + 1))
              then 2 * pos + 1 + 1 else 2 * pos + 1)"
    note st = siftup_loop_step[OF True c_def]
    have eq: "siftup_loop key (heap[pos := heap ! c]) c = (heap', pos')"
      using 1(2) st(1) by simp
    from 1(1)[OF refl True refl c_def eq] st(2)
    have "mset (heap'[pos' := x]) = mset ((heap[pos := heap ! c])[c := x])" by simp
    also have "\<dots> = mset (heap[pos := x])"
    proof -
      let ?ls = "heap[pos := x]"
      have "mset (?ls[c := ?ls ! pos, pos := ?ls ! c]) = mset ?ls"
        using st(2) 1(3) by (intro mset_swap) simp_all
      moreover have "?ls[c := ?ls ! pos, pos := ?ls ! c] = (heap[pos := heap ! c])[c := x]"
        using st(2,3) 1(3) by (simp add: list_update_swap)
      ultimately show ?thesis by simp
    qed
    finally show ?thesis .
  next
    case False
    with 1(2) siftup_loop_leaf[OF False, of key] show ?thesis by auto
  qed
qed

lemma siftup_loop_except:
  "siftup_loop key heap pos = (heap', pos') \<Longrightarrow> pos < length heap \<Longrightarrow>
   heap_except key heap pos \<Longrightarrow>
   (0 < pos \<longrightarrow> (\<forall>c. 0 < c \<and> c < length heap \<and> (c - 1) div 2 = pos \<longrightarrow>
                    key (heap ! ((pos - 1) div 2)) \<le> key (heap ! c))) \<Longrightarrow>
   heap_except key heap' pos'"
proof (induction key heap pos arbitrary: heap' pos' rule: siftup_loop.induct)
  case (1 key heap pos)
  note A = 1(4)[unfolded heap_except_def, rule_format]
  show ?case
  proof (cases "2 * pos + 1 < length heap")
    case True
    define c where "c = (if 2 * pos + 1 + 1 < length heap
                 \<and> \<not> key (heap ! (2 * pos + 1)) < key (heap ! (2 * pos + 1 + 1))
              then 2 * pos + 1 + 1 else 2 * pos + 1)"
    note st = siftup_loop_step[OF True c_def]
    let ?h = "heap[pos := heap ! c]"
    have eq: "siftup_loop key ?h c = (heap', pos')"
      using 1(2) st(1) by simp
    have cpos: "0 < c" using st(3) by simp
    have A': "heap_except key ?h c"
      unfolding heap_except_def
    proof (intro allI impI)
      fix i assume i: "0 < i \<and> i < length ?h \<and> i \<noteq> c \<and> (i - 1) div 2 \<noteq> c"
      show "key (?h ! ((i - 1) div 2)) \<le> key (?h ! i)"
      proof (cases "i = pos")
        case True
        then have "(i - 1) div 2 \<noteq> pos" using i by auto
        moreover have "key (heap ! ((pos - 1) div 2)) \<le> key (heap ! c)"
          using 1(5) True i st(2,4) cpos by auto
        ultimately show ?thesis using True 1(3) by (simp add: nth_list_update)
      next
        case ni: False
        show ?thesis
        proof (cases "(i - 1) div 2 = pos")
          case True
          with st(5) i have "key (heap ! c) \<le> key (heap ! i)" by auto
          with True ni 1(3) show ?thesis by (simp add: nth_list_update)
        next
          case False
          with ni i A[of i] show ?thesis by (simp add: nth_list_update)
        qed
      qed
    qed
    have D': "0 < c \<longrightarrow> (\<forall>c'. 0 < c' \<and> c' < length ?h \<and> (c' - 1) div 2 = c \<longrightarrow>
                    key (?h ! ((c - 1) div 2)) \<le> key (?h ! c'))"
    proof (intro allI impI)
      fix c' assume c': "0 < c' \<and> c' < length ?h \<and> (c' - 1) div 2 = c"
      then have "c' \<noteq> pos" "(c' - 1) div 2 \<noteq> pos" using st(3) by auto
      with c' A[of c'] have "key (heap ! c) \<le> key (heap ! c')" by auto
      then show "key (?h ! ((c - 1) div 2)) \<le> key (?h ! c')"
        using st(4) 1(3) \<open>c' \<noteq> pos\<close> by (simp add: nth_list_update)
    qed
    have cl: "c < length ?h" using st(2) by simp
    from 1(1)[OF refl True refl c_def eq cl A' D'] show ?thesis .
  next
    case False
    with 1(2,4) siftup_loop_leaf[OF False, of key] show ?thesis by auto
  qed
qed


lemma heappop_None: "heappop key heap = None \<longleftrightarrow> heap = []"
  by (simp add: heappop_def Let_def)

lemma is_heap_butlast: "is_heap key heap \<Longrightarrow> is_heap key (butlast heap)"
  unfolding is_heap_def
proof (intro allI impI)
  fix i assume h: "\<forall>i. 0 < i \<and> i < length heap \<longrightarrow> key (heap ! ((i - 1) div 2)) \<le> key (heap ! i)"
    and i: "0 < i \<and> i < length (butlast heap)"
  then have "i < length heap - 1" by simp
  moreover then have "(i - 1) div 2 < length heap - 1" by auto
  ultimately show "key (butlast heap ! ((i - 1) div 2)) \<le> key (butlast heap ! i)"
    using h i by (simp add: nth_butlast)
qed

lemma siftup_root:
  assumes ne: "heap \<noteq> []"
  shows "mset (siftup key heap 0) = mset heap"
    and "heap_except key heap 0 \<Longrightarrow> is_heap key (siftup key heap 0)"
proof -
  obtain h1 p1 where l: "siftup_loop key heap 0 = (h1, p1)" by (cases "siftup_loop key heap 0")
  have len0: "0 < length heap" using ne by simp
  from length_siftup_loop[OF l len0] have len: "length h1 = length heap" "p1 < length heap"
      "length heap \<le> 2 * p1 + 1" by auto
  let ?x = "heap ! 0"
  let ?h = "h1[p1 := ?x]"
  have res: "siftup key heap 0 = siftdown_loop key ?h 0 p1 ?x"
    using l len by (simp add: siftup_def siftdown_def Let_def)
  have p1: "p1 < length ?h" using len by simp
  have "mset (siftup key heap 0) = mset (?h[p1 := ?x])"
    unfolding res using p1 by (rule mset_siftdown_loop)
  also have "\<dots> = mset (heap[0 := ?x])" using mset_siftup_loop[OF l len0, of ?x] by simp
  finally show "mset (siftup key heap 0) = mset heap" by simp
  assume A: "heap_except key heap 0"
  have A1: "heap_except key h1 p1"
    using siftup_loop_except[OF l len0 A] by simp
  then have A2: "heap_except key ?h p1" by (simp add: heap_except_update)
  have C: "\<forall>c. 0 < c \<and> c < length ?h \<and> (c - 1) div 2 = p1 \<longrightarrow>
           key ?x \<le> key (?h ! c)
           \<and> (0 < p1 \<longrightarrow> key (?h ! ((p1 - 1) div 2)) \<le> key (?h ! c))"
  proof (intro allI impI)
    fix c assume c: "0 < c \<and> c < length ?h \<and> (c - 1) div 2 = p1"
    then have "c = 2 * p1 + 1 \<or> c = 2 * p1 + 2" using child_iff[of c p1] by simp
    with c len have False by auto
    then show "key ?x \<le> key (?h ! c)
           \<and> (0 < p1 \<longrightarrow> key (?h ! ((p1 - 1) div 2)) \<le> key (?h ! c))" ..
  qed
  show "is_heap key (siftup key heap 0)"
    unfolding res by (rule siftdown_loop_heap[OF refl p1 A2 C])
qed

lemma heappop_Some:
  assumes "heappop key heap = Some (t, rest)"
  shows "heap \<noteq> [] \<and> t = heap ! 0 \<and> add_mset t (mset rest) = mset heap
       \<and> (is_heap key heap \<longrightarrow> is_heap key rest \<and> (\<forall>u\<in>set heap. key t \<le> key u))"
proof -
  from assms have ne: "heap \<noteq> []" by (auto simp: heappop_def split: if_splits)
  have least: "is_heap key heap \<Longrightarrow> \<forall>u\<in>set heap. key (heap ! 0) \<le> key u"
    using heap_root_least[of key heap] by (auto simp: in_set_conv_nth)
  show ?thesis
  proof (cases "butlast heap = []")
    case True
    with ne have one: "heap = [last heap]" by (metis append_butlast_last_id append_Nil)
    then have "heap ! 0 = last heap" by (metis nth_Cons_0)
    moreover from assms True ne have "t = last heap" "rest = []"
      by (auto simp: heappop_def Let_def)
    moreover have "add_mset (last heap) (mset []) = mset heap" using one by (metis mset.simps mset_single_iff_right add_mset_eq_single)
    ultimately show ?thesis using ne least by (auto simp: is_heap_def)
  next
    case False
    let ?b = "butlast heap"
    let ?h0 = "?b[0 := last heap]"
    from assms False ne have t: "t = ?b ! 0" and r: "rest = siftup key ?h0 0"
      by (auto simp: heappop_def Let_def)
    have b0: "0 < length ?b" using False by (metis length_greater_0_conv)
    then have t0: "t = heap ! 0" using t by (simp add: nth_butlast)
    have h0: "?h0 \<noteq> []" using False by simp
    have "mset rest = mset ?h0" unfolding r using h0 by (rule siftup_root(1))
    also have "\<dots> = add_mset (last heap) (mset ?b - {#?b ! 0#})"
      using b0 by (simp add: mset_update)
    finally have "add_mset t (mset rest) = add_mset (last heap) (mset ?b)"
      using t b0 by simp
    also have "\<dots> = mset (?b @ [last heap])" by simp
    also have "\<dots> = mset heap" using ne by simp
    finally have m: "add_mset t (mset rest) = mset heap" .
    have hp: "is_heap key heap \<Longrightarrow> is_heap key rest"
    proof -
      assume "is_heap key heap"
      then have "is_heap key ?b" by (rule is_heap_butlast)
      then have "heap_except key ?b 0" by (rule is_heap_except)
      then have "heap_except key ?h0 0" by (simp add: heap_except_update)
      then show "is_heap key rest" unfolding r using h0 siftup_root(2) by blast
    qed
    show ?thesis using ne t0 m hp least by auto
  qed
qed

text \<open>
  Pushing onto a heap puts the new item at the root only when it is less than the root.
  So the root of a heap built by pushes alone is the earliest of the least items.
\<close>

lemma siftdown_loop_root:
  assumes "0 < pos" "\<forall>i<pos. key (heap ! 0) \<le> key (heap ! i)"
  shows "siftdown_loop key heap 0 pos x ! 0 = (if key x < key (heap ! 0) then x else heap ! 0)
       \<or> length heap = 0"
  using assms
proof (induction key heap "0::nat" pos x rule: siftdown_loop.induct)
  case (1 key heap pos newitem)
  let ?pp = "(pos - 1) div 2"
  have pp: "?pp < pos" using "1.prems"(1) by simp
  show ?case
  proof (cases "length heap = 0")
    case True
    then show ?thesis by simp
  next
    case ne: False
    show ?thesis
    proof (cases "key newitem < key (heap ! ?pp)")
      case True
      show ?thesis
      proof (cases "?pp = 0")
        case z: True
        have "siftdown_loop key heap 0 pos newitem = siftdown_loop key (heap[pos := heap ! 0]) 0 0 newitem"
          using "1.prems"(1) True z by (subst siftdown_loop.simps) (simp add: Let_def)
        also have "\<dots> = (heap[pos := heap ! 0])[0 := newitem]"
          by (subst siftdown_loop.simps) simp
        finally show ?thesis using True z ne by simp
      next
        case nz: False
        have eq: "siftdown_loop key heap 0 pos newitem
                  = siftdown_loop key (heap[pos := heap ! ?pp]) 0 ?pp newitem"
          using "1.prems"(1) True by (subst siftdown_loop.simps) (simp add: Let_def)
        have r0: "(heap[pos := heap ! ?pp]) ! 0 = heap ! 0" using "1.prems"(1) by simp
        have le: "\<forall>i<?pp. key ((heap[pos := heap ! ?pp]) ! 0) \<le> key ((heap[pos := heap ! ?pp]) ! i)"
          using "1.prems"(2) pp by (simp add: r0)
        from "1.hyps"[OF "1.prems"(1) refl refl True _ le] nz
        have "siftdown_loop key (heap[pos := heap ! ?pp]) 0 ?pp newitem ! 0
                = (if key newitem < key ((heap[pos := heap ! ?pp]) ! 0) then newitem
                   else (heap[pos := heap ! ?pp]) ! 0)
              \<or> length (heap[pos := heap ! ?pp]) = 0" by simp
        then show ?thesis unfolding eq r0 by simp
      qed
    next
      case False
      have "siftdown_loop key heap 0 pos newitem = heap[pos := newitem]"
        using "1.prems"(1) False by (subst siftdown_loop.simps) (simp add: Let_def)
      moreover have "key (heap ! 0) \<le> key (heap ! ?pp)" using "1.prems"(2) pp by simp
      ultimately show ?thesis using False "1.prems"(1) by simp
    qed
  qed
qed

lemma heappush_Nil: "heappush key [] x = [x]"
  by (simp add: heappush_def siftdown_def, subst siftdown_loop.simps, simp)

lemma heappush_root:
  assumes "is_heap key heap" "heap \<noteq> []"
  shows "heappush key heap x ! 0 = (if key x < key (heap ! 0) then x else heap ! 0)"
proof -
  have pos: "0 < length heap" using assms(2) by simp
  have le: "\<forall>i<length heap. key ((heap @ [x]) ! 0) \<le> key ((heap @ [x]) ! i)"
    using heap_root_least[OF assms(1)] pos by (simp add: nth_append)
  from siftdown_loop_root[OF pos le, of x]
  show ?thesis using pos by (simp add: heappush_def siftdown_def nth_append)
qed


lemma foldl_heappush_heap:
  "is_heap key heap \<Longrightarrow> is_heap key (foldl (heappush key) heap xs)"
  by (induction xs arbitrary: heap) (simp_all add: is_heap_heappush)

lemma foldl_heappush_mset:
  "mset (foldl (heappush key) heap xs) = mset heap + mset xs"
  by (induction xs arbitrary: heap) (simp_all add: mset_heappush)

lemma foldl_heappush_root:
  assumes "xs \<noteq> []"
  shows "\<exists>k<length xs. foldl (heappush key) [] xs ! 0 = xs ! k
            \<and> (\<forall>j<k. key (xs ! k) < key (xs ! j))
            \<and> (\<forall>j<length xs. key (xs ! k) \<le> key (xs ! j))"
  using assms
proof (induction xs rule: rev_induct)
  case Nil
  then show ?case by simp
next
  case (snoc x xs)
  show ?case
  proof (cases "xs = []")
    case True
    then show ?thesis by (simp add: heappush_Nil)
  next
    case False
    let ?h = "foldl (heappush key) [] xs"
    from snoc.IH[OF False] obtain k where k: "k < length xs" and r: "?h ! 0 = xs ! k"
      and before: "\<forall>j<k. key (xs ! k) < key (xs ! j)"
      and least: "\<forall>j<length xs. key (xs ! k) \<le> key (xs ! j)" by blast
    have hp: "is_heap key ?h" by (rule foldl_heappush_heap) (simp add: is_heap_def)
    have "mset ?h \<noteq> {#}" using False by (simp add: foldl_heappush_mset)
    then have ne: "?h \<noteq> []" by simp
    have root: "foldl (heappush key) [] (xs @ [x]) ! 0 = (if key x < key (xs ! k) then x else xs ! k)"
      using heappush_root[OF hp ne, of x] r by simp
    show ?thesis
    proof (cases "key x < key (xs ! k)")
      case True
      have a: "length xs < length (xs @ [x])" by simp
      have b: "foldl (heappush key) [] (xs @ [x]) ! 0 = (xs @ [x]) ! length xs"
        using root True by simp
      have c: "\<forall>j<length xs. key ((xs @ [x]) ! length xs) < key ((xs @ [x]) ! j)"
      proof (intro allI impI)
        fix j assume j: "j < length xs"
        with least have "key (xs ! k) \<le> key (xs ! j)" by simp
        with True j show "key ((xs @ [x]) ! length xs) < key ((xs @ [x]) ! j)"
          by (simp add: nth_append)
      qed
      have d: "\<forall>j<length (xs @ [x]). key ((xs @ [x]) ! length xs) \<le> key ((xs @ [x]) ! j)"
      proof (intro allI impI)
        fix j assume j: "j < length (xs @ [x])"
        show "key ((xs @ [x]) ! length xs) \<le> key ((xs @ [x]) ! j)"
        proof (cases "j < length xs")
          case True
          with c show ?thesis by (simp add: less_imp_le)
        next
          case False
          with j have "j = length xs" by simp
          then show ?thesis by simp
        qed
      qed
      from a b c d show ?thesis by blast
    next
      case False
      have a: "k < length (xs @ [x])" using k by simp
      have b: "foldl (heappush key) [] (xs @ [x]) ! 0 = (xs @ [x]) ! k"
        using root False k by (simp add: nth_append)
      have c: "\<forall>j<k. key ((xs @ [x]) ! k) < key ((xs @ [x]) ! j)"
        using before k by (simp add: nth_append)
      have d: "\<forall>j<length (xs @ [x]). key ((xs @ [x]) ! k) \<le> key ((xs @ [x]) ! j)"
      proof (intro allI impI)
        fix j assume j: "j < length (xs @ [x])"
        show "key ((xs @ [x]) ! k) \<le> key ((xs @ [x]) ! j)"
        proof (cases "j < length xs")
          case True
          with least k show ?thesis by (simp add: nth_append)
        next
          case nl: False
          with j have "j = length xs" by simp
          with False k show ?thesis by (simp add: nth_append)
        qed
      qed
      from a b c d show ?thesis by blast
    qed
  qed
qed

lemma foldl_enqueue_arrival_pending:
  "pending_tasks (foldl enqueue_arrival s arrivals) =
     foldl (heappush priority) (pending_tasks s)
       (map (\<lambda>(uid, a). DistributedArrivalTask uid a) (enumerate (next_uuid s) arrivals))"
  by (induction arrivals arbitrary: s) (simp_all add: enqueue_arrival_def Let_def)

section \<open>One call of the Orchestrator's main loop\<close>

text \<open>
  Taking the arrivals of a pass into the queue changes neither \<open>_alive\<close> nor the
  deployed tasks; it pushes one task per arrival, numbered in the order of arrival.
\<close>

lemma enqueue_arrival_fields:
  "alive (enqueue_arrival s a) = alive s"
  "deployed_tasks (enqueue_arrival s a) = deployed_tasks s"
  "next_uuid (enqueue_arrival s a) = Suc (next_uuid s)"
  "pending_tasks (enqueue_arrival s a) =
     heappush priority (pending_tasks s)
       (DistributedArrivalTask (next_uuid s) a)"
  by (simp_all add: enqueue_arrival_def Let_def)

lemma foldl_enqueue_arrival_fields:
  "alive (foldl enqueue_arrival s arrivals) = alive s
   \<and> deployed_tasks (foldl enqueue_arrival s arrivals) = deployed_tasks s
   \<and> next_uuid (foldl enqueue_arrival s arrivals) = next_uuid s + length arrivals"
  by (induction arrivals arbitrary: s) (simp_all add: enqueue_arrival_fields)

lemma foldl_enqueue_arrival_heap:
  "is_heap priority (pending_tasks s) \<Longrightarrow>
   is_heap priority (pending_tasks (foldl enqueue_arrival s arrivals))"
  by (induction arrivals arbitrary: s) (simp_all add: enqueue_arrival_fields is_heap_heappush)

lemma foldl_enqueue_arrival_mset:
  "mset (pending_tasks (foldl enqueue_arrival s arrivals)) =
     mset (pending_tasks s)
     + mset (map (\<lambda>(uid, a). DistributedArrivalTask uid a)
                 (enumerate (next_uuid s) arrivals))"
  by (induction arrivals arbitrary: s)
     (simp_all add: enqueue_arrival_fields mset_heappush)

text \<open>
  A pass with nothing pending sleeps for five seconds; the first pass with a pending task
  creates one job and ends the call.
\<close>

lemma run_loop_sleep:
  assumes "alive s" "pre \<noteq> [] \<longrightarrow> pending_tasks s = []" "\<forall>arrivals\<in>set pre. arrivals = []"
  shows "run_loop s (pre @ later) =
           (replicate (length pre) (SleepSeconds 5) @ fst (run_loop s later), snd (run_loop s later))"
  using assms
proof (induction pre)
  case Nil
  then show ?case by simp
next
  case (Cons a pre)
  then have a: "a = []" by simp
  from Cons.prems(2) have e: "pending_tasks s = []" by simp
  have h: "heappop priority (pending_tasks s) = None" using e by (simp add: heappop_None)
  from Cons have IH: "run_loop s (pre @ later) =
           (replicate (length pre) (SleepSeconds 5) @ fst (run_loop s later), snd (run_loop s later))"
    by simp
  show ?case using Cons.prems(1) h by (simp add: a IH)
qed

lemma run_loop_deploy:
  assumes "alive s" "heappop priority (pending_tasks (foldl enqueue_arrival s arrivals)) = Some (t, rest)"
  shows "run_loop s (arrivals # later) =
           ([CreateJob t []],
            (foldl enqueue_arrival s arrivals)\<lparr>pending_tasks := rest,
               deployed_tasks := deployed_tasks s @ [t], alive := False\<rparr>)"
  using assms by (simp add: Let_def foldl_enqueue_arrival_fields)


text \<open>
  C8 (amended). A call of \<open>run\<close> on a queue in heap order leaves the queue in heap
  order. If the time budget allows no pass, or no task is pending at the start and no
  arrival comes, nothing is deployed: the call only sleeps five seconds per pass. Otherwise
  the call ends at the first pass \<open>n\<close> at which a task is pending. There the queue
  \<open>q\<close> holds the tasks pending at the start and one task per arrival of the pass; one
  task \<open>t\<close> of \<open>q\<close> is taken, of least priority in \<open>q\<close>; if no task was pending at
  the start, \<open>t\<close> is the task of the earliest arrival of that priority. Exactly one job
  is created, for \<open>t\<close>; \<open>t\<close> is appended to the deployed tasks; every other task of
  \<open>q\<close> is still pending when the call returns; and the Orchestrator has stopped.
\<close>

theorem orchestrator_run_one_task:
  assumes heap: "is_heap priority (pending_tasks s)"
    and run: "orchestrator_run s clear passes = (evs, s')"
  shows "is_heap priority (pending_tasks s')
       \<and> (if passes = [] \<or> (pending_tasks s = [] \<and> (\<forall>arrivals\<in>set passes. arrivals = []))
           then evs = (if clear then [ClearJobs] else []) @ replicate (length passes) (SleepSeconds 5)
                \<and> s' = s\<lparr>alive := True\<rparr>
           else (\<exists>n t. n < length passes \<and> (\<forall>m<n. passes ! m = [])
                   \<and> (0 < n \<longrightarrow> pending_tasks s = [])
                   \<and> (let q = pending_tasks (foldl enqueue_arrival (s\<lparr>alive := True\<rparr>) (passes ! n))
                       in mset q = mset (pending_tasks s)
                            + mset (map (\<lambda>(uid, a). DistributedArrivalTask uid a)
                                        (enumerate (next_uuid s) (passes ! n)))
                        \<and> t \<in> set q \<and> (\<forall>u\<in>set q. priority t \<le> priority u)
                        \<and> (pending_tasks s = [] \<longrightarrow>
                             (\<exists>k<length (passes ! n).
                                 t = DistributedArrivalTask (next_uuid s + k) (passes ! n ! k)
                                 \<and> (\<forall>j<k. priority t < arrival_priority (passes ! n ! j))))
                        \<and> add_mset t (mset (pending_tasks s')) = mset q
                        \<and> evs = (if clear then [ClearJobs] else []) @ replicate n (SleepSeconds 5)
                                  @ [CreateJob t []]
                        \<and> deployed_tasks s' = deployed_tasks s @ [t]
                        \<and> \<not> alive s'
                        \<and> next_uuid s' = next_uuid s + length (passes ! n))))"
proof -
  let ?s0 = "s\<lparr>alive := True\<rparr>"
  let ?clear = "if clear then [ClearJobs] else []"
  let ?idle = "passes = [] \<or> (pending_tasks s = [] \<and> (\<forall>arrivals\<in>set passes. arrivals = []))"
  from run have evs: "evs = ?clear @ fst (run_loop ?s0 passes)" and s': "s' = snd (run_loop ?s0 passes)"
    by (auto simp: orchestrator_run_def case_prod_beta)
  have a0: "alive ?s0" by simp
  show ?thesis
  proof (cases ?idle)
    case True
    then have p: "passes \<noteq> [] \<longrightarrow> pending_tasks ?s0 = []" and e: "\<forall>arrivals\<in>set passes. arrivals = []"
      by auto
    from run_loop_sleep[OF a0 p e, of "[]"]
    have "run_loop ?s0 passes = (replicate (length passes) (SleepSeconds 5), ?s0)" by simp
    with evs s' have "evs = ?clear @ replicate (length passes) (SleepSeconds 5)" "s' = ?s0" by simp_all
    with True heap show ?thesis by simp
  next
    case False
    then have ne: "passes \<noteq> []" and some: "pending_tasks s \<noteq> [] \<or> (\<exists>arrivals\<in>set passes. arrivals \<noteq> [])"
      by auto
    define n where "n = (if pending_tasks s \<noteq> [] then 0 else length (takeWhile (\<lambda>a. a = []) passes))"
    have n_less: "n < length passes"
    proof (cases "pending_tasks s \<noteq> []")
      case True
      then show ?thesis using ne by (simp add: n_def)
    next
      case False
      with some have "\<exists>arrivals\<in>set passes. arrivals \<noteq> []" by simp
      then have "takeWhile (\<lambda>a. a = []) passes \<noteq> passes" by (simp add: takeWhile_eq_all_conv)
      then have "length (takeWhile (\<lambda>a. a = []) passes) < length passes"
        using length_takeWhile_le[of "\<lambda>a. a = []" passes]
        by (metis takeWhile_eq_take take_all_iff le_neq_implies_less)
      with False show ?thesis by (simp add: n_def)
    qed
    have before: "\<forall>m<n. passes ! m = []"
    proof (intro allI impI)
      fix m assume m: "m < n"
      then have "pending_tasks s = []" and "m < length (takeWhile (\<lambda>a. a = []) passes)"
        by (auto simp: n_def split: if_splits)
      then have "passes ! m = takeWhile (\<lambda>a. a = []) passes ! m" by (simp add: takeWhile_nth)
      moreover have "takeWhile (\<lambda>a. a = []) passes ! m \<in> set (takeWhile (\<lambda>a. a = []) passes)"
        using \<open>m < length (takeWhile (\<lambda>a. a = []) passes)\<close> by (rule nth_mem)
      ultimately show "passes ! m = []" by (auto dest: set_takeWhileD)
    qed
    have n_pos: "0 < n \<longrightarrow> pending_tasks s = []" by (auto simp: n_def split: if_splits)
    have here: "pending_tasks s \<noteq> [] \<or> passes ! n \<noteq> []"
    proof (cases "pending_tasks s \<noteq> []")
      case True
      then show ?thesis by simp
    next
      case False
      then have "n = length (takeWhile (\<lambda>a. a = []) passes)" by (simp add: n_def)
      with n_less have "passes ! n \<noteq> []" using nth_length_takeWhile[of "\<lambda>a. a = []" passes] by simp
      then show ?thesis by simp
    qed
    let ?pre = "take n passes"
    let ?later = "drop (Suc n) passes"
    let ?s1 = "foldl enqueue_arrival ?s0 (passes ! n)"
    let ?q = "pending_tasks ?s1"
    let ?new = "map (\<lambda>(uid, a). DistributedArrivalTask uid a)
                                        (enumerate (next_uuid s) (passes ! n))"
    have split: "passes = ?pre @ passes ! n # ?later" using n_less by (rule id_take_nth_drop)
    have pre_empty: "\<forall>arrivals\<in>set ?pre. arrivals = []"
      using before n_less by (auto simp: in_set_conv_nth)
    have pre_pending: "?pre \<noteq> [] \<longrightarrow> pending_tasks ?s0 = []" using n_pos by auto
    have len_pre: "length ?pre = n" using n_less by simp
    have q: "mset ?q = mset (pending_tasks s) + mset ?new"
      using foldl_enqueue_arrival_mset[of ?s0 "passes ! n"] by simp
    have "mset ?q \<noteq> {#}" unfolding q using here
      by (auto dest: arg_cong[where f = length])
    then have "?q \<noteq> []" by simp
    then obtain t rest where pop: "heappop priority ?q = Some (t, rest)"
      using heappop_None[of priority ?q] by (cases "heappop priority ?q") auto
    have hq: "is_heap priority ?q" using heap by (intro foldl_enqueue_arrival_heap) simp
    note ps = heappop_Some[OF pop]
    from ps have m: "add_mset t (mset rest) = mset ?q" by (rule conjunct1[OF conjunct2[OF conjunct2]])
    from ps have "is_heap priority ?q \<longrightarrow> is_heap priority rest \<and> (\<forall>u\<in>set ?q. priority t \<le> priority u)"
      by (rule conjunct2[OF conjunct2[OF conjunct2]])
    with hq have hl: "is_heap priority rest \<and> (\<forall>u\<in>set ?q. priority t \<le> priority u)" by (rule rev_mp)
    from hl have hr: "is_heap priority rest" by (rule conjunct1)
    from hl have least: "\<forall>u\<in>set ?q. priority t \<le> priority u" by (rule conjunct2)
    from ps have t0: "t = ?q ! 0" by (rule conjunct1[OF conjunct2])
    have first: "pending_tasks s = [] \<longrightarrow>
                      (\<exists>k<length (passes ! n).
                          t = DistributedArrivalTask (next_uuid s + k) (passes ! n ! k)
                          \<and> (\<forall>j<k. priority t < arrival_priority (passes ! n ! j)))"
    proof
      assume e: "pending_tasks s = []"
      with here have ne: "passes ! n \<noteq> []" by simp
      then have nn: "?new \<noteq> []" by (auto dest: arg_cong[where f = length])
      have qf: "?q = foldl (heappush priority) [] ?new"
        using foldl_enqueue_arrival_pending[of ?s0 "passes ! n"] e by simp
      from foldl_heappush_root[OF nn, of priority]
      obtain k where k: "k < length ?new" and r: "foldl (heappush priority) [] ?new ! 0 = ?new ! k"
        and b: "\<forall>j<k. priority (?new ! k) < priority (?new ! j)" by blast
      have len: "length ?new = length (passes ! n)" by simp
      have nth: "\<And>j. j < length (passes ! n) \<Longrightarrow>
                   ?new ! j = DistributedArrivalTask (next_uuid s + j) (passes ! n ! j)"
        by (simp add: nth_enumerate_eq)
      have pr: "\<And>j. j < length (passes ! n) \<Longrightarrow> priority (?new ! j) = arrival_priority (passes ! n ! j)"
        using nth by (simp only: DistributedArrivalTask_def) simp
      from k len have k': "k < length (passes ! n)" by simp
      have tk: "t = DistributedArrivalTask (next_uuid s + k) (passes ! n ! k)"
        using t0 qf r nth[OF k'] by simp
      have bk: "\<forall>j<k. priority t < arrival_priority (passes ! n ! j)"
      proof (intro allI impI)
        fix j assume j: "j < k"
        with k' have j': "j < length (passes ! n)" by simp
        from b j have "priority (?new ! k) < priority (?new ! j)" by simp
        then show "priority t < arrival_priority (passes ! n ! j)"
          using pr[OF j'] nth[OF k'] tk by simp
      qed
      from k' tk bk show "\<exists>k<length (passes ! n).
                          t = DistributedArrivalTask (next_uuid s + k) (passes ! n ! k)
                          \<and> (\<forall>j<k. priority t < arrival_priority (passes ! n ! j))" by blast
    qed
    from m have "t \<in># mset ?q" by (metis union_single_eq_member)
    then have mem: "t \<in> set ?q" by simp
    have "run_loop ?s0 passes = run_loop ?s0 (?pre @ passes ! n # ?later)" using split by simp
    also have "\<dots> = (replicate (length ?pre) (SleepSeconds 5) @ fst (run_loop ?s0 (passes ! n # ?later)),
                     snd (run_loop ?s0 (passes ! n # ?later)))"
      by (rule run_loop_sleep[OF a0 pre_pending pre_empty])
    also have "run_loop ?s0 (passes ! n # ?later) =
        ([CreateJob t []], ?s1\<lparr>pending_tasks := rest, deployed_tasks := deployed_tasks ?s0 @ [t], alive := False\<rparr>)"
      by (rule run_loop_deploy[OF a0 pop])
    finally have r: "run_loop ?s0 passes =
        (replicate n (SleepSeconds 5) @ [CreateJob t []],
         ?s1\<lparr>pending_tasks := rest, deployed_tasks := deployed_tasks s @ [t], alive := False\<rparr>)"
      using len_pre by simp
    from r evs have E: "evs = ?clear @ replicate n (SleepSeconds 5) @ [CreateJob t []]" by simp
    from r s' have S: "s' = ?s1\<lparr>pending_tasks := rest, deployed_tasks := deployed_tasks s @ [t], alive := False\<rparr>"
      by simp
    have P: "pending_tasks s' = rest" and D: "deployed_tasks s' = deployed_tasks s @ [t]"
      and A: "\<not> alive s'" and U: "next_uuid s' = next_uuid s + length (passes ! n)"
      unfolding S by (simp_all add: foldl_enqueue_arrival_fields)
    have body: "let q = ?q
                in mset q = mset (pending_tasks s) + mset ?new
                 \<and> t \<in> set q \<and> (\<forall>u\<in>set q. priority t \<le> priority u)
                 \<and> (pending_tasks s = [] \<longrightarrow>
                      (\<exists>k<length (passes ! n).
                          t = DistributedArrivalTask (next_uuid s + k) (passes ! n ! k)
                          \<and> (\<forall>j<k. priority t < arrival_priority (passes ! n ! j))))
                 \<and> add_mset t (mset (pending_tasks s')) = mset q
                 \<and> evs = ?clear @ replicate n (SleepSeconds 5) @ [CreateJob t []]
                 \<and> deployed_tasks s' = deployed_tasks s @ [t]
                 \<and> \<not> alive s'
                 \<and> next_uuid s' = next_uuid s + length (passes ! n)"
      unfolding Let_def P using q mem least first m E D A U by (intro conjI)
    have ex: "\<exists>n t. n < length passes \<and> (\<forall>m<n. passes ! m = [])
                   \<and> (0 < n \<longrightarrow> pending_tasks s = [])
                   \<and> (let q = pending_tasks (foldl enqueue_arrival ?s0 (passes ! n))
                       in mset q = mset (pending_tasks s)
                            + mset (map (\<lambda>(uid, a). DistributedArrivalTask uid a)
                                        (enumerate (next_uuid s) (passes ! n)))
                        \<and> t \<in> set q \<and> (\<forall>u\<in>set q. priority t \<le> priority u)
                        \<and> (pending_tasks s = [] \<longrightarrow>
                             (\<exists>k<length (passes ! n).
                                 t = DistributedArrivalTask (next_uuid s + k) (passes ! n ! k)
                                 \<and> (\<forall>j<k. priority t < arrival_priority (passes ! n ! j))))
                        \<and> add_mset t (mset (pending_tasks s')) = mset q
                        \<and> evs = ?clear @ replicate n (SleepSeconds 5) @ [CreateJob t []]
                        \<and> deployed_tasks s' = deployed_tasks s @ [t]
                        \<and> \<not> alive s'
                        \<and> next_uuid s' = next_uuid s + length (passes ! n))"
      using n_less before n_pos body by blast
    have h: "is_heap priority (pending_tasks s')" using hr P by simp
    from h ex show ?thesis unfolding if_not_P[OF False] by (rule conjI)
  qed
qed


text \<open>
  An instance with a tie: arrivals of priorities 2, 1 and 1 at the first pass. The job is
  created for the earlier task of priority 1; the other two tasks stay pending.
\<close>

theorem orchestrator_run_one_task_witness:
  "is_heap priority (pending_tasks ex_orchestrator)
   \<and> orchestrator_run ex_orchestrator True [[ex_arrival 2, ex_arrival 1, ex_arrival 1]] =
       ([ClearJobs,
         CreateJob \<lparr>priority = 1, task_id = 1, network = ''net'', dataset = ''data'', type_map = []\<rparr> []],
        \<lparr>alive = False,
          pending_tasks =
            [\<lparr>priority = 1, task_id = 2, network = ''net'', dataset = ''data'', type_map = []\<rparr>,
             \<lparr>priority = 2, task_id = 0, network = ''net'', dataset = ''data'', type_map = []\<rparr>],
          deployed_tasks =
            [\<lparr>priority = 1, task_id = 1, network = ''net'', dataset = ''data'', type_map = []\<rparr>],
          next_uuid = 3\<rparr>)
   \<and> is_heap priority
         [\<lparr>priority = 1, task_id = 2, network = ''net'', dataset = ''data'', type_map = []\<rparr>,
          \<lparr>priority = 2, task_id = 0, network = ''net'', dataset = ''data'', type_map = []\<rparr>]"
proof -
  have h: "is_heap priority (pending_tasks ex_orchestrator)"
    by (simp add: ex_orchestrator_def is_heap_def)
  have v: "orchestrator_run ex_orchestrator True [[ex_arrival 2, ex_arrival 1, ex_arrival 1]] =
       ([ClearJobs,
         CreateJob \<lparr>priority = 1, task_id = 1, network = ''net'', dataset = ''data'', type_map = []\<rparr> []],
        \<lparr>alive = False,
          pending_tasks =
            [\<lparr>priority = 1, task_id = 2, network = ''net'', dataset = ''data'', type_map = []\<rparr>,
             \<lparr>priority = 2, task_id = 0, network = ''net'', dataset = ''data'', type_map = []\<rparr>],
          deployed_tasks =
            [\<lparr>priority = 1, task_id = 1, network = ''net'', dataset = ''data'', type_map = []\<rparr>],
          next_uuid = 3\<rparr>)" by code_simp
  from orchestrator_run_one_task[OF h v, THEN conjunct1]
  have r: "is_heap priority
         [\<lparr>priority = 1, task_id = 2, network = ''net'', dataset = ''data'', type_map = []\<rparr>,
          \<lparr>priority = 2, task_id = 0, network = ''net'', dataset = ''data'', type_map = []\<rparr>]"
    by simp
  from h v r show ?thesis by (intro conjI)
qed

text \<open>
  C8 as stated fails. With arrivals of priorities 2 and 1 at the first pass, one job is
  created, for the task of priority 1; the task of priority 2 is still in the queue when
  \<open>run\<close> returns, and the Orchestrator has stopped. And with four arrivals of
  priority 1, a first call deploys task 0 and a second call deploys task 2, although
  task 1 arrived before it.
\<close>

theorem queue_not_drained_counterexample:
  "fst (orchestrator_run ex_orchestrator True [[ex_arrival 2, ex_arrival 1]]) =
     [ClearJobs,
      CreateJob \<lparr>priority = 1, task_id = 1, network = ''net'', dataset = ''data'', type_map = []\<rparr> []]
   \<and> pending_tasks (snd (orchestrator_run ex_orchestrator True [[ex_arrival 2, ex_arrival 1]])) =
       [\<lparr>priority = 2, task_id = 0, network = ''net'', dataset = ''data'', type_map = []\<rparr>]
   \<and> alive (snd (orchestrator_run ex_orchestrator True [[ex_arrival 2, ex_arrival 1]])) = False
   \<and> map task_id (deployed_tasks (snd (orchestrator_run
         (snd (orchestrator_run ex_orchestrator True
                 [[ex_arrival 1, ex_arrival 1, ex_arrival 1, ex_arrival 1]]))
         False [[]]))) = [0, 2]"
  by code_simp

text \<open>
  The federated variant: \<open>_prepare_experiment_maps\<close> raises for every task, so
  \<open>run_federated\<close> creates neither a configuration map nor a job; the call that takes a
  task from the queue ends with a \<open>TypeError\<close>.
\<close>

lemma prepare_experiment_maps_raises:
  "prepare_experiment_maps task uuid replication = Inl TypeError"
  by (simp add: prepare_experiment_maps_def Template_def)

lemma foldl_enqueue_federated_arrival_deployed:
  "deployed_tasks (foldl (enqueue_federated_arrival key) s arrivals) = deployed_tasks s"
  by (induction arrivals arbitrary: s) (simp_all add: enqueue_federated_arrival_def Let_def)

lemma run_federated_loop_raises:
  "run_federated_loop key s passes = (evs, err, s') \<Longrightarrow>
     set evs \<subseteq> {SleepSeconds 5} \<and> deployed_tasks s' = deployed_tasks s
     \<and> (err = None \<or> err = Some TypeError)"
proof (induction passes arbitrary: s evs err s')
  case Nil
  then show ?case by simp
next
  case (Cons arrivals later)
  let ?s1 = "foldl (enqueue_federated_arrival key) s arrivals"
  show ?case
  proof (cases "alive s")
    case False
    with Cons.prems show ?thesis by simp
  next
    case True
    show ?thesis
    proof (cases "heappop key (pending_tasks ?s1)")
      case None
      obtain evs1 err1 s1' where r: "run_federated_loop key ?s1 later = (evs1, err1, s1')"
        by (cases "run_federated_loop key ?s1 later") auto
      from Cons.prems True None r have e: "evs = SleepSeconds 5 # evs1" "err = err1" "s' = s1'"
        by (simp_all add: Let_def)
      from Cons.IH[OF r] e show ?thesis
        by (simp add: foldl_enqueue_federated_arrival_deployed)
    next
      case (Some p)
      obtain curr_task rest where p: "p = (curr_task, rest)" by (cases p)
      from Cons.prems True Some p
      have "evs = []" "err = Some TypeError" "s' = ?s1\<lparr>pending_tasks := rest\<rparr>"
        by (simp_all add: Let_def prepare_experiment_maps_raises)
      then show ?thesis by (simp add: foldl_enqueue_federated_arrival_deployed)
    qed
  qed
qed

lemma run_federated_example:
  "run_federated_loop priority (ex_orchestrator\<lparr>alive := True\<rparr>) [[ex_federated_arrival]] =
     ([], Some TypeError,
      \<lparr>alive = True, pending_tasks = [], deployed_tasks = [], next_uuid = 1\<rparr>)"
  by code_simp

end
